theory Spec2Isabelle
  imports Complex_Main
begin

section \<open>The LRU cache of backend/src/utils/LRUCache.ts\<close>

text \<open>
  The class \<^verbatim>\<open>LRUCache<T>\<close> keeps a JavaScript \<^verbatim>\<open>Map\<close> from keys to node objects and
  threads the same node objects on a doubly linked list through their \<^verbatim>\<open>prev\<close> and
  \<^verbatim>\<open>next\<close> fields. The node objects are shared between the map and the list, so the
  model has an explicit store: a node object is an address (its index in the list
  \<open>heap\<close>), \<^verbatim>\<open>new\<close> appends to the store, and a field assignment updates the store at
  the address.

  Numbers: capacities, timestamps (\<^verbatim>\<open>Date.now()\<close>, whole milliseconds) and counters are
  modelled as \<open>int\<close>. Every call of \<^verbatim>\<open>Date.now()\<close> is a parameter of the operation that
  makes it. The constructor's default \<^verbatim>\<open>ttlSeconds = 60\<close> is left to the caller, and the
  timer that the constructor starts is modelled by its effect: a call of
  \<^verbatim>\<open>cleanupExpired\<close> between two other calls.
\<close>

subsection \<open>Data\<close>

type_synonym addr = nat

record 'v CacheNode =
  key :: string
  val :: 'v
  timestamp :: int
  prev_node :: "addr option"
  next_node :: "addr option"

record CacheStats =
  hits :: int
  misses :: int
  size_stat :: int
  averageResponseTime :: real

record 'v LRUCache =
  capacity :: int
  cache :: "(string \<times> addr) list"
  heap :: "'v CacheNode list"
  head :: "addr option"
  tail :: "addr option"
  ttl :: int
  stats :: CacheStats
  responseTimes :: "int list"

subsection \<open>The JavaScript Map, in insertion order\<close>

definition Map_get :: "(string \<times> addr) list \<Rightarrow> string \<Rightarrow> addr option" where
  "Map_get m k = map_of m k"

fun Map_set :: "string \<Rightarrow> addr \<Rightarrow> (string \<times> addr) list \<Rightarrow> (string \<times> addr) list" where
  "Map_set k a [] = [(k, a)]"
| "Map_set k a (e # m) = (if fst e = k then (k, a) # m else e # Map_set k a m)"

definition Map_delete :: "string \<Rightarrow> (string \<times> addr) list \<Rightarrow> (string \<times> addr) list" where
  "Map_delete k m = filter (\<lambda>e. fst e \<noteq> k) m"

subsection \<open>Field assignments on node objects\<close>

definition set_next :: "addr \<Rightarrow> addr option \<Rightarrow> 'v CacheNode list \<Rightarrow> 'v CacheNode list" where
  "set_next a x h = h[a := (h ! a)\<lparr>next_node := x\<rparr>]"

definition set_prev :: "addr \<Rightarrow> addr option \<Rightarrow> 'v CacheNode list \<Rightarrow> 'v CacheNode list" where
  "set_prev a x h = h[a := (h ! a)\<lparr>prev_node := x\<rparr>]"

subsection \<open>The operations\<close>

definition constructor :: "int \<Rightarrow> int \<Rightarrow> 'v LRUCache" where
  "constructor capacity' ttlSeconds =
     \<lparr>capacity = capacity', cache = [], heap = [], head = None, tail = None,
      ttl = ttlSeconds * 1000,
      stats = \<lparr>hits = 0, misses = 0, size_stat = 0, averageResponseTime = 0\<rparr>,
      responseTimes = []\<rparr>"

definition recordResponseTime :: "int \<Rightarrow> 'v LRUCache \<Rightarrow> 'v LRUCache" where
  "recordResponseTime time s =
     (let pushed = responseTimes s @ [time]
      in s\<lparr>responseTimes := (if length pushed > 100 then tl pushed else pushed)\<rparr>)"

text \<open>
  \<^verbatim>\<open>Math.round((sum / length) * 100) / 100\<close>. JavaScript numbers are modelled as real
  numbers and \<^verbatim>\<open>Math.round(x)\<close> is \<open>\<lfloor>x + 1/2\<rfloor>\<close>, halves going up. The source computes
  the argument in doubles: where the exact value of \<^verbatim>\<open>(sum / length) * 100\<close> lies exactly
  halfway between two integers, the double lies on the half or just below it, and
  \<^verbatim>\<open>Math.round\<close> then gives the upper or the lower of the two integers. The parameter
  \<open>tie_up\<close> says which; it is read at such a half only.
\<close>

definition Math_round :: "bool \<Rightarrow> real \<Rightarrow> int" where
  "Math_round tie_up x = (if frac x = 1 / 2 \<and> \<not> tie_up then \<lfloor>x\<rfloor> else \<lfloor>x + 1 / 2\<rfloor>)"

definition calculateAverageResponseTime :: "bool \<Rightarrow> 'v LRUCache \<Rightarrow> real" where
  "calculateAverageResponseTime tie_up s =
     (if length (responseTimes s) = 0 then 0
      else (let sum = sum_list (responseTimes s)
            in real_of_int (Math_round tie_up
                 ((real_of_int sum / real (length (responseTimes s))) * 100)) / 100))"

definition getStats :: "bool \<Rightarrow> 'v LRUCache \<Rightarrow> CacheStats" where
  "getStats tie_up s = (stats s)\<lparr>averageResponseTime := calculateAverageResponseTime tie_up s\<rparr>"

definition addToHead :: "addr \<Rightarrow> 'v LRUCache \<Rightarrow> 'v LRUCache" where
  "addToHead node s =
     (let h1 = set_prev node None (heap s);
          h2 = set_next node (head s) h1;
          h3 = (case head s of Some hd' \<Rightarrow> set_prev hd' (Some node) h2 | None \<Rightarrow> h2);
          s1 = s\<lparr>heap := h3, head := Some node\<rparr>
      in (case tail s1 of None \<Rightarrow> s1\<lparr>tail := Some node\<rparr> | Some _ \<Rightarrow> s1))"

definition removeNode :: "addr \<Rightarrow> 'v LRUCache \<Rightarrow> 'v LRUCache" where
  "removeNode node s =
     (let s1 = (case prev_node (heap s ! node) of
                  Some p \<Rightarrow> s\<lparr>heap := set_next p (next_node (heap s ! node)) (heap s)\<rparr>
                | None \<Rightarrow> s\<lparr>head := next_node (heap s ! node)\<rparr>)
      in (case next_node (heap s1 ! node) of
            Some n \<Rightarrow> s1\<lparr>heap := set_prev n (prev_node (heap s1 ! node)) (heap s1)\<rparr>
          | None \<Rightarrow> s1\<lparr>tail := prev_node (heap s1 ! node)\<rparr>))"

definition moveToHead :: "addr \<Rightarrow> 'v LRUCache \<Rightarrow> 'v LRUCache" where
  "moveToHead node s = addToHead node (removeNode node s)"

definition size_dec :: "'v LRUCache \<Rightarrow> 'v LRUCache" where
  "size_dec s = s\<lparr>stats := (stats s)\<lparr>size_stat := size_stat (stats s) - 1\<rparr>\<rparr>"

definition removeTail :: "'v LRUCache \<Rightarrow> 'v LRUCache" where
  "removeTail s =
     (case tail s of
        None \<Rightarrow> s
      | Some t \<Rightarrow>
          (let k = key (heap s ! t);
               s1 = removeNode t s;
               s2 = s1\<lparr>cache := Map_delete k (cache s1)\<rparr>
           in size_dec s2))"

definition delete :: "string \<Rightarrow> 'v LRUCache \<Rightarrow> bool \<times> 'v LRUCache" where
  "delete k s =
     (case Map_get (cache s) k of
        None \<Rightarrow> (False, s)
      | Some node \<Rightarrow>
          (let s1 = removeNode node s;
               s2 = s1\<lparr>cache := Map_delete k (cache s1)\<rparr>
           in (True, size_dec s2)))"

definition miss :: "'v LRUCache \<Rightarrow> 'v LRUCache" where
  "miss s = s\<lparr>stats := (stats s)\<lparr>misses := misses (stats s) + 1\<rparr>\<rparr>"

definition hit :: "'v LRUCache \<Rightarrow> 'v LRUCache" where
  "hit s = s\<lparr>stats := (stats s)\<lparr>hits := hits (stats s) + 1\<rparr>\<rparr>"

text \<open>
  \<open>get\<close> reads the clock at its start (\<open>startTime\<close>), for the expiry test when the key is
  in the map (\<open>checkTime\<close>), and when it records its duration (\<open>endTime\<close>). The result
  \<open>None\<close> is the source's \<^verbatim>\<open>null\<close>.
\<close>

definition get :: "string \<Rightarrow> int \<Rightarrow> int \<Rightarrow> int \<Rightarrow> 'v LRUCache \<Rightarrow> 'v option \<times> 'v LRUCache" where
  "get k startTime checkTime endTime s =
     (case Map_get (cache s) k of
        None \<Rightarrow> (None, recordResponseTime (endTime - startTime) (miss s))
      | Some node \<Rightarrow>
          if checkTime - timestamp (heap s ! node) > ttl s
          then (None, recordResponseTime (endTime - startTime) (miss (snd (delete k s))))
          else (let s1 = recordResponseTime (endTime - startTime) (hit (moveToHead node s))
                in (Some (val (heap s1 ! node)), s1)))"

definition set_kv :: "string \<Rightarrow> 'v \<Rightarrow> int \<Rightarrow> 'v LRUCache \<Rightarrow> 'v LRUCache" where
  "set_kv k v now s =
     (case Map_get (cache s) k of
        Some existing \<Rightarrow>
          moveToHead existing
            (s\<lparr>heap := (heap s)[existing := (heap s ! existing)\<lparr>val := v, timestamp := now\<rparr>]\<rparr>)
      | None \<Rightarrow>
          (let newNode = length (heap s);
               s1 = s\<lparr>heap := heap s @ [\<lparr>key = k, val = v, timestamp = now,
                                         prev_node = None, next_node = None\<rparr>]\<rparr>;
               s2 = s1\<lparr>cache := Map_set k newNode (cache s1)\<rparr>;
               s3 = addToHead newNode s2;
               s4 = s3\<lparr>stats := (stats s3)\<lparr>size_stat := size_stat (stats s3) + 1\<rparr>\<rparr>
           in if int (length (cache s4)) > capacity s4 then removeTail s4 else s4))"

definition clear :: "'v LRUCache \<Rightarrow> 'v LRUCache" where
  "clear s = s\<lparr>cache := [], head := None, tail := None,
               stats := (stats s)\<lparr>size_stat := 0\<rparr>, responseTimes := []\<rparr>"

definition cleanupExpired :: "int \<Rightarrow> 'v LRUCache \<Rightarrow> 'v LRUCache" where
  "cleanupExpired now s =
     (let expiredKeys = map fst (filter (\<lambda>e. now - timestamp (heap s ! snd e) > ttl s) (cache s))
      in fold (\<lambda>k s'. snd (delete k s')) expiredKeys s)"

definition destroy :: "'v LRUCache \<Rightarrow> 'v LRUCache" where
  "destroy s = clear s"

subsection \<open>Sequences of calls\<close>

text \<open>
  JavaScript runs each call, and each tick of the 30 second timer that calls
  \<^verbatim>\<open>cleanupExpired\<close>, to completion before the next one starts. A history of a cache
  is therefore a list of calls, the timer's ticks among them.
\<close>

datatype 'v call =
    Get string int int int
  | Set string 'v int
  | Delete string
  | Clear
  | CleanupExpired int
  | Destroy

fun exec :: "'v call \<Rightarrow> 'v LRUCache \<Rightarrow> 'v LRUCache" where
  "exec (Get k t0 t1 t2) s = snd (get k t0 t1 t2 s)"
| "exec (Set k v now) s = set_kv k v now s"
| "exec (Delete k) s = snd (delete k s)"
| "exec Clear s = clear s"
| "exec (CleanupExpired now) s = cleanupExpired now s"
| "exec Destroy s = destroy s"

fun run :: "'v call list \<Rightarrow> 'v LRUCache \<Rightarrow> 'v LRUCache" where
  "run [] s = s"
| "run (c # cs) s = run cs (exec c s)"

subsection \<open>Reading the linked list\<close>

text \<open>
  \<open>traverse nx n p\<close> follows the link \<open>nx\<close> from the pointer \<open>p\<close> until it reaches the
  null pointer, and gives the nodes it met; it gives up (\<open>None\<close>) after \<open>n\<close> nodes, which
  is what it does on a cyclic list.
\<close>

fun traverse :: "(addr \<Rightarrow> addr option) \<Rightarrow> nat \<Rightarrow> addr option \<Rightarrow> addr list option" where
  "traverse nx n None = Some []"
| "traverse nx 0 (Some a) = None"
| "traverse nx (Suc n) (Some a) = map_option ((#) a) (traverse nx n (nx a))"

definition nexts :: "'v CacheNode list \<Rightarrow> addr \<Rightarrow> addr option" where
  "nexts h a = next_node (h ! a)"

definition prevs :: "'v CacheNode list \<Rightarrow> addr \<Rightarrow> addr option" where
  "prevs h a = prev_node (h ! a)"

definition list_forward :: "'v LRUCache \<Rightarrow> addr list option" where
  "list_forward s = traverse (nexts (heap s)) (length (heap s)) (head s)"

definition list_backward :: "'v LRUCache \<Rightarrow> addr list option" where
  "list_backward s = traverse (prevs (heap s)) (length (heap s)) (tail s)"

definition entry :: "'v CacheNode list \<Rightarrow> addr \<Rightarrow> string \<times> 'v \<times> int" where
  "entry h a = (key (h ! a), val (h ! a), timestamp (h ! a))"

definition recency_list :: "'v LRUCache \<Rightarrow> (string \<times> 'v \<times> int) list option" where
  "recency_list s = map_option (map (entry (heap s))) (list_forward s)"

definition index_keys :: "'v LRUCache \<Rightarrow> string list" where
  "index_keys s = map fst (cache s)"

subsection \<open>Auxiliary definitions for the proofs\<close>

text \<open>
  \<open>chain nx p as\<close>: following the link \<open>nx\<close> from the pointer \<open>p\<close> meets exactly the nodes
  \<open>as\<close>, in this order, and then the null pointer.
\<close>
fun chain :: "(addr \<Rightarrow> addr option) \<Rightarrow> addr option \<Rightarrow> addr list \<Rightarrow> bool" where
  "chain nx f [] = (f = None)"
| "chain nx f (a # as) = (f = Some a \<and> chain nx (nx a) as)"

text \<open>
  The first element of a list, if there is one: what \<open>head\<close> is to the list of nodes.
\<close>
definition first_opt :: "'a list \<Rightarrow> 'a option" where
  "first_opt xs = (case xs of [] \<Rightarrow> None | x # _ \<Rightarrow> Some x)"

text \<open>
  The doubly linked list of a cache holds the nodes \<open>as\<close>: the \<open>next\<close> links lead from
  \<open>head\<close> through \<open>as\<close>, the \<open>prev\<close> links lead from \<open>tail\<close> through \<open>as\<close> reversed, no
  node occurs twice and every node has been allocated.
\<close>
definition dll :: "'v LRUCache \<Rightarrow> addr list \<Rightarrow> bool" where
  "dll s as \<longleftrightarrow>
     chain (nexts (heap s)) (head s) as \<and> chain (prevs (heap s)) (tail s) (rev as) \<and>
     distinct as \<and> (\<forall>a\<in>set as. a < length (heap s))"

text \<open>
  The invariant of the class: the list holds the nodes \<open>as\<close>, the map has distinct keys
  and maps exactly the key of each node of \<open>as\<close> to that node, and \<open>stats.size\<close> is the
  size of the map.
\<close>
definition cache_inv :: "'v LRUCache \<Rightarrow> addr list \<Rightarrow> bool" where
  "cache_inv s as \<longleftrightarrow>
     dll s as \<and> distinct (map fst (cache s)) \<and>
     set (cache s) = (\<lambda>a. (key (heap s ! a), a)) ` set as \<and>
     size_stat (stats s) = int (length (cache s))"

text \<open>
  The three statements that \<open>delete\<close> and \<open>removeTail\<close> share: \<^verbatim>\<open>removeNode(node)\<close>,
  \<^verbatim>\<open>cache.delete(key)\<close>, \<^verbatim>\<open>stats.size--\<close>.
\<close>
definition unlink :: "addr \<Rightarrow> string \<Rightarrow> 'v LRUCache \<Rightarrow> 'v LRUCache" where
  "unlink a k s = size_dec ((removeNode a s)\<lparr>cache := Map_delete k (cache (removeNode a s))\<rparr>)"

text \<open>
  The branch of \<open>set\<close> for a new key, up to the test of the capacity.
\<close>
definition insert_new :: "string \<Rightarrow> 'v \<Rightarrow> int \<Rightarrow> 'v LRUCache \<Rightarrow> 'v LRUCache" where
  "insert_new k v now s =
     (let newNode = length (heap s);
          s1 = s\<lparr>heap := heap s @ [\<lparr>key = k, val = v, timestamp = now,
                                    prev_node = None, next_node = None\<rparr>]\<rparr>;
          s2 = s1\<lparr>cache := Map_set k newNode (cache s1)\<rparr>;
          s3 = addToHead newNode s2
      in s3\<lparr>stats := (stats s3)\<lparr>size_stat := size_stat (stats s3) + 1\<rparr>\<rparr>)"

text \<open>
  The reference model that the recency list is compared with: the entries (key, value,
  timestamp) in order of use, the most recently used first. A \<open>set\<close>, or a \<open>get\<close> that
  finds its key alive, moves the entry to the front; \<open>delete\<close>, an expired \<open>get\<close> and the
  sweep remove entries and keep the order of the others; a \<open>set\<close> of a new key that makes
  the list longer than the capacity drops the last entry. The timestamp of an entry is
  the time of its last \<open>set\<close>.
\<close>
type_synonym 'v entry = "string \<times> 'v \<times> int"

definition lru_lookup :: "string \<Rightarrow> 'v entry list \<Rightarrow> 'v entry option" where
  "lru_lookup k es = find (\<lambda>e. fst e = k) es"

definition lru_remove :: "string \<Rightarrow> 'v entry list \<Rightarrow> 'v entry list" where
  "lru_remove k es = filter (\<lambda>e. fst e \<noteq> k) es"

definition lru_expired :: "int \<Rightarrow> int \<Rightarrow> 'v entry \<Rightarrow> bool" where
  "lru_expired ttl' now e \<longleftrightarrow> now - snd (snd e) > ttl'"

definition lru_get :: "int \<Rightarrow> string \<Rightarrow> int \<Rightarrow> 'v entry list \<Rightarrow> 'v entry list" where
  "lru_get ttl' k now es =
     (case lru_lookup k es of
        None \<Rightarrow> es
      | Some e \<Rightarrow> if lru_expired ttl' now e then lru_remove k es else e # lru_remove k es)"

definition lru_get_result :: "int \<Rightarrow> string \<Rightarrow> int \<Rightarrow> 'v entry list \<Rightarrow> 'v option" where
  "lru_get_result ttl' k now es =
     (case lru_lookup k es of
        None \<Rightarrow> None
      | Some e \<Rightarrow> if lru_expired ttl' now e then None else Some (fst (snd e)))"

definition lru_set :: "int \<Rightarrow> string \<Rightarrow> 'v \<Rightarrow> int \<Rightarrow> 'v entry list \<Rightarrow> 'v entry list" where
  "lru_set cap k v now es =
     (case lru_lookup k es of
        Some e \<Rightarrow> (k, v, now) # lru_remove k es
      | None \<Rightarrow> if int (length es) + 1 > cap then butlast ((k, v, now) # es)
                else (k, v, now) # es)"

definition lru_sweep :: "int \<Rightarrow> int \<Rightarrow> 'v entry list \<Rightarrow> 'v entry list" where
  "lru_sweep ttl' now es = filter (\<lambda>e. \<not> lru_expired ttl' now e) es"

fun lru_step :: "int \<Rightarrow> int \<Rightarrow> 'v call \<Rightarrow> 'v entry list \<Rightarrow> 'v entry list" where
  "lru_step cap ttl' (Get k t0 t1 t2) es = lru_get ttl' k t1 es"
| "lru_step cap ttl' (Set k v now) es = lru_set cap k v now es"
| "lru_step cap ttl' (Delete k) es = lru_remove k es"
| "lru_step cap ttl' Clear es = []"
| "lru_step cap ttl' (CleanupExpired now) es = lru_sweep ttl' now es"
| "lru_step cap ttl' Destroy es = []"

fun lru_run :: "int \<Rightarrow> int \<Rightarrow> 'v call list \<Rightarrow> 'v entry list \<Rightarrow> 'v entry list" where
  "lru_run cap ttl' [] es = es"
| "lru_run cap ttl' (c # cs) es = lru_run cap ttl' cs (lru_step cap ttl' c es)"

text \<open>
  A cache state refines a list of entries when its linked list, read from the head,
  holds these entries and the invariant holds.
\<close>
definition refines :: "'v LRUCache \<Rightarrow> 'v entry list \<Rightarrow> bool" where
  "refines s es \<longleftrightarrow> (\<exists>as. cache_inv s as \<and> map (entry (heap s)) as = es)"

text \<open>
  The durations that a sequence of calls records, appended to the window \<open>w\<close>: one for
  each \<open>get\<close> (its end time minus its start time), none for the other calls; \<open>clear\<close>
  and \<open>destroy\<close> empty the window.
\<close>
fun samples :: "'v call list \<Rightarrow> int list \<Rightarrow> int list" where
  "samples [] w = w"
| "samples (Get k t0 t1 t2 # cs) w = samples cs (w @ [t2 - t0])"
| "samples (Set k v now # cs) w = samples cs w"
| "samples (Delete k # cs) w = samples cs w"
| "samples (Clear # cs) w = samples cs []"
| "samples (CleanupExpired now # cs) w = samples cs w"
| "samples (Destroy # cs) w = samples cs []"

text \<open>
  The latest \<open>n\<close> elements of a list (all of it when it is shorter).
\<close>
definition latest :: "nat \<Rightarrow> 'a list \<Rightarrow> 'a list" where
  "latest n w = drop (length w - n) w"

section \<open>Lemmas\<close>

lemma chain_cong: "(\<And>a. a \<in> set as \<Longrightarrow> nx a = nx' a) \<Longrightarrow> chain nx f as = chain nx' f as"
  by (induction as arbitrary: f) auto

lemma chain_traverse: "chain nx f as \<Longrightarrow> length as \<le> n \<Longrightarrow> traverse nx n f = Some as"
proof (induction as arbitrary: f n)
  case Nil
  then show ?case by simp
next
  case (Cons a as)
  then obtain m where "n = Suc m" by (cases n) auto
  with Cons show ?case by simp
qed

lemma chain_next_of:
  "chain nx f (xs @ a # ys) \<Longrightarrow> nx a = (case ys of [] \<Rightarrow> None | y # _ \<Rightarrow> Some y)"
  by (induction xs arbitrary: f) (auto split: list.splits)

lemma chain_first: "chain nx f as \<Longrightarrow> f = (case as of [] \<Rightarrow> None | a # _ \<Rightarrow> Some a)"
  by (cases as) auto

lemma chain_remove:
  "chain nx f (xs @ a # ys) \<Longrightarrow> distinct (xs @ a # ys) \<Longrightarrow>
   chain (if xs = [] then nx else nx(last xs := nx a)) (if xs = [] then nx a else f) (xs @ ys)"
proof (induction xs arbitrary: f)
  case Nil
  then show ?case by simp
next
  case (Cons x xs)
  show ?case
  proof (cases "xs = []")
    case True
    with Cons.prems have "chain nx (nx a) ys" "x \<notin> set ys" by auto
    have "chain (nx(x := nx a)) (nx a) ys = chain nx (nx a) ys"
      by (rule chain_cong) (use \<open>x \<notin> set ys\<close> in auto)
    with \<open>chain nx (nx a) ys\<close> have "chain (nx(x := nx a)) (nx a) ys" by simp
    with True Cons.prems show ?thesis by (simp add: fun_upd_def)
  next
    case False
    from Cons.prems have c: "chain nx (nx x) (xs @ a # ys)" and d: "distinct (xs @ a # ys)"
      and f: "f = Some x" and x: "x \<notin> set xs" by auto
    from False x have "x \<noteq> last xs" using last_in_set by metis
    with Cons.IH[OF c d] False f show ?thesis by simp
  qed
qed

lemma chain_snoc:
  "chain nx f ys \<Longrightarrow> distinct ys \<Longrightarrow> a \<notin> set ys \<Longrightarrow>
   chain (if ys = [] then nx(a := None) else nx(a := None, last ys := Some a))
         (if ys = [] then Some a else f) (ys @ [a])"
proof (induction ys arbitrary: f)
  case Nil
  then show ?case by simp
next
  case (Cons y ys)
  show ?case
  proof (cases "ys = []")
    case True
    with Cons.prems show ?thesis by auto
  next
    case False
    from Cons.prems have c: "chain nx (nx y) ys" and d: "distinct ys" and a: "a \<notin> set ys"
      and f: "f = Some y" and y: "y \<notin> set ys" "y \<noteq> a" by auto
    from False y have "y \<noteq> last ys" using last_in_set by metis
    with Cons.IH[OF c d a] False f y show ?thesis by simp
  qed
qed

lemma nexts_set_next: "a < length h \<Longrightarrow> nexts (set_next a x h) = (nexts h)(a := x)"
  by (auto simp: nexts_def set_next_def fun_eq_iff)

lemma nexts_set_prev: "nexts (set_prev a x h) = nexts h"
  by (cases "a < length h") (auto simp: nexts_def set_prev_def fun_eq_iff nth_list_update list_update_beyond)

lemma prevs_set_prev: "a < length h \<Longrightarrow> prevs (set_prev a x h) = (prevs h)(a := x)"
  by (auto simp: prevs_def set_prev_def fun_eq_iff)

lemma prevs_set_next: "prevs (set_next a x h) = prevs h"
  by (cases "a < length h") (auto simp: prevs_def set_next_def fun_eq_iff nth_list_update list_update_beyond)

lemma entry_set_next: "entry (set_next a x h) = entry h"
  by (cases "a < length h") (auto simp: entry_def set_next_def fun_eq_iff nth_list_update list_update_beyond)

lemma entry_set_prev: "entry (set_prev a x h) = entry h"
  by (cases "a < length h") (auto simp: entry_def set_prev_def fun_eq_iff nth_list_update list_update_beyond)

lemma length_set_next: "length (set_next a x h) = length h"
  by (simp add: set_next_def)

lemma length_set_prev: "length (set_prev a x h) = length h"
  by (simp add: set_prev_def)

lemmas store_simps = nexts_set_next nexts_set_prev prevs_set_prev prevs_set_next
  entry_set_next entry_set_prev length_set_next length_set_prev

text \<open>removeNode, in terms of the two link functions\<close>

lemma removeNode_alt:
  "removeNode a s =
     (let p = prevs (heap s) a; n = nexts (heap s) a;
          s1 = (case p of Some pa \<Rightarrow> s\<lparr>heap := set_next pa n (heap s)\<rparr> | None \<Rightarrow> s\<lparr>head := n\<rparr>)
      in (case nexts (heap s1) a of
            Some na \<Rightarrow> s1\<lparr>heap := set_prev na (prevs (heap s1) a) (heap s1)\<rparr>
          | None \<Rightarrow> s1\<lparr>tail := prevs (heap s1) a\<rparr>))"
  unfolding removeNode_def nexts_def prevs_def Let_def ..

lemma removeNode_frame:
  "cache (removeNode a s) = cache s"
  "capacity (removeNode a s) = capacity s"
  "ttl (removeNode a s) = ttl s"
  "stats (removeNode a s) = stats s"
  "responseTimes (removeNode a s) = responseTimes s"
  "length (heap (removeNode a s)) = length (heap s)"
  "entry (heap (removeNode a s)) = entry (heap s)"
  by (simp_all add: removeNode_alt Let_def store_simps split: option.splits)

lemma removeNode_links:
  assumes "\<forall>p. prevs (heap s) a = Some p \<longrightarrow> p < length (heap s)"
    and "\<forall>n. nexts (heap s) a = Some n \<longrightarrow> n < length (heap s)"
  shows "nexts (heap (removeNode a s)) =
           (case prevs (heap s) a of Some p \<Rightarrow> (nexts (heap s))(p := nexts (heap s) a)
            | None \<Rightarrow> nexts (heap s))"
    and "head (removeNode a s) =
           (case prevs (heap s) a of Some p \<Rightarrow> head s | None \<Rightarrow> nexts (heap s) a)"
    and "prevs (heap (removeNode a s)) =
           (case nexts (heap s) a of Some n \<Rightarrow> (prevs (heap s))(n := prevs (heap s) a)
            | None \<Rightarrow> prevs (heap s))"
    and "tail (removeNode a s) =
           (case nexts (heap s) a of Some n \<Rightarrow> tail s | None \<Rightarrow> prevs (heap s) a)"
  using assms
  by (auto simp: removeNode_alt Let_def store_simps split: option.splits)

lemma addToHead_frame:
  "cache (addToHead a s) = cache s"
  "capacity (addToHead a s) = capacity s"
  "ttl (addToHead a s) = ttl s"
  "stats (addToHead a s) = stats s"
  "responseTimes (addToHead a s) = responseTimes s"
  "length (heap (addToHead a s)) = length (heap s)"
  "entry (heap (addToHead a s)) = entry (heap s)"
  by (simp_all add: addToHead_def Let_def store_simps split: option.splits)

lemma addToHead_links:
  assumes "a < length (heap s)" and "\<forall>b. head s = Some b \<longrightarrow> b < length (heap s)"
  shows "nexts (heap (addToHead a s)) = (nexts (heap s))(a := head s)"
    and "head (addToHead a s) = Some a"
    and "prevs (heap (addToHead a s)) =
           (case head s of Some b \<Rightarrow> (prevs (heap s))(a := None, b := Some a)
            | None \<Rightarrow> (prevs (heap s))(a := None))"
    and "tail (addToHead a s) = (case tail s of None \<Rightarrow> Some a | Some t \<Rightarrow> Some t)"
  using assms
  by (auto simp: addToHead_def Let_def store_simps split: option.splits)

lemma first_opt_simps [simp]:
  "first_opt [] = None" "first_opt (x # xs) = Some x"
  "first_opt (xs @ [x]) = (if xs = [] then Some x else first_opt xs)"
  by (auto simp: first_opt_def split: list.splits)

lemma first_opt_rev: "first_opt (rev xs) = (if xs = [] then None else Some (last xs))"
  by (cases xs rule: rev_cases) auto

lemma first_opt_None [simp]: "first_opt xs = None \<longleftrightarrow> xs = []"
  by (cases xs) auto

lemma first_opt_SomeD: "first_opt xs = Some x \<Longrightarrow> xs \<noteq> [] \<and> x = hd xs \<and> x \<in> set xs"
  by (cases xs) auto

lemma chain_next_of': "chain nx f (xs @ a # ys) \<Longrightarrow> nx a = first_opt ys"
  by (drule chain_next_of) (simp add: first_opt_def)

lemma chain_first': "chain nx f as \<Longrightarrow> f = first_opt as"
  by (drule chain_first) (simp add: first_opt_def)

lemma chain_remove':
  assumes "chain nx f (xs @ a # ys)" "distinct (xs @ a # ys)"
  shows "chain (case first_opt (rev xs) of None \<Rightarrow> nx | Some p \<Rightarrow> nx(p := nx a))
               (case first_opt (rev xs) of None \<Rightarrow> nx a | Some p \<Rightarrow> f) (xs @ ys)"
  using chain_remove[OF assms] by (cases "xs = []") (simp_all add: first_opt_rev)

lemma removeNode_dll:
  assumes d: "dll s as" and a: "a \<in> set as"
  shows "dll (removeNode a s) (remove1 a as)"
proof -
  from a obtain xs ys where as: "as = xs @ a # ys" and nx: "a \<notin> set xs"
    by (auto dest: split_list_first)
  let ?nx = "nexts (heap s)" and ?pv = "prevs (heap s)"
  from d as have cn: "chain ?nx (head s) (xs @ a # ys)"
    and cp: "chain ?pv (tail s) (rev ys @ a # rev xs)"
    and dist: "distinct (xs @ a # ys)" and rng: "\<forall>b\<in>set (xs @ a # ys). b < length (heap s)"
    by (simp_all add: dll_def)
  have n: "?nx a = first_opt ys" using cn by (rule chain_next_of')
  have p: "?pv a = first_opt (rev xs)" using cp by (rule chain_next_of')
  have rp: "\<forall>q. ?pv a = Some q \<longrightarrow> q < length (heap s)"
    using rng by (auto simp: p dest!: first_opt_SomeD)
  have rn: "\<forall>q. ?nx a = Some q \<longrightarrow> q < length (heap s)"
    using rng by (auto simp: n dest!: first_opt_SomeD)
  note links = removeNode_links[OF rp rn]
  from dist have dist': "distinct (rev ys @ a # rev xs)" by auto
  have c1: "chain (nexts (heap (removeNode a s))) (head (removeNode a s)) (xs @ ys)"
    unfolding links(1,2) p by (rule chain_remove'[OF cn dist])
  have "chain (prevs (heap (removeNode a s))) (tail (removeNode a s)) (rev ys @ rev xs)"
    unfolding links(3,4) n using chain_remove'[OF cp dist'] by simp
  then have c2: "chain (prevs (heap (removeNode a s))) (tail (removeNode a s)) (rev (xs @ ys))"
    by simp
  have r: "remove1 a as = xs @ ys" using nx by (simp add: as remove1_append)
  show ?thesis
    unfolding dll_def r using c1 c2 dist rng by (auto simp: removeNode_frame)
qed

lemma addToHead_dll:
  assumes d: "dll s as" and a: "a \<notin> set as" and al: "a < length (heap s)"
  shows "dll (addToHead a s) (a # as)"
proof -
  let ?nx = "nexts (heap s)" and ?pv = "prevs (heap s)"
  from d have cn: "chain ?nx (head s) as" and cp: "chain ?pv (tail s) (rev as)"
    and dist: "distinct as" and rng: "\<forall>b\<in>set as. b < length (heap s)"
    by (simp_all add: dll_def)
  have hd: "head s = first_opt as" using cn by (rule chain_first')
  have tl: "tail s = first_opt (rev as)" using cp by (rule chain_first')
  have rh: "\<forall>b. head s = Some b \<longrightarrow> b < length (heap s)"
    using rng by (auto simp: hd dest!: first_opt_SomeD)
  note links = addToHead_links[OF al rh]
  have "chain (?nx(a := head s)) (head s) as = chain ?nx (head s) as"
    by (rule chain_cong) (use a in auto)
  with cn have c1: "chain (nexts (heap (addToHead a s))) (head (addToHead a s)) (a # as)"
    by (simp add: links(1,2))
  from dist a have dr: "distinct (rev as)" "a \<notin> set (rev as)" by auto
  have c2: "chain (prevs (heap (addToHead a s))) (tail (addToHead a s)) (rev (a # as))"
  proof (cases "as = []")
    case True
    then show ?thesis using hd tl by (simp add: links(3,4))
  next
    case False
    then obtain b bs where bs: "as = b # bs" by (cases as) auto
    with a have "a \<noteq> b" by auto
    with False bs show ?thesis
      using chain_snoc[OF cp dr] hd tl by (simp add: links(3,4) first_opt_rev split: if_splits)
  qed
  show ?thesis
    unfolding dll_def using c1 c2 dist a al rng by (auto simp: addToHead_frame)
qed

lemma moveToHead_dll:
  assumes d: "dll s as" and a: "a \<in> set as"
  shows "dll (moveToHead a s) (a # remove1 a as)"
proof -
  from d a have "a < length (heap s)" "distinct as" by (auto simp: dll_def)
  then show ?thesis
    unfolding moveToHead_def
    using removeNode_dll[OF d a] by (intro addToHead_dll) (auto simp: removeNode_frame)
qed

lemma moveToHead_frame:
  "cache (moveToHead a s) = cache s"
  "capacity (moveToHead a s) = capacity s"
  "ttl (moveToHead a s) = ttl s"
  "stats (moveToHead a s) = stats s"
  "responseTimes (moveToHead a s) = responseTimes s"
  "length (heap (moveToHead a s)) = length (heap s)"
  "entry (heap (moveToHead a s)) = entry (heap s)"
  by (simp_all add: moveToHead_def addToHead_frame removeNode_frame)

lemma dll_traverse:
  assumes "dll s as"
  shows "list_forward s = Some as" and "list_backward s = Some (rev as)"
proof -
  from assms have "distinct as" "set as \<subseteq> {..<length (heap s)}" by (auto simp: dll_def)
  then have "card (set as) \<le> card {..<length (heap s)}" by (intro card_mono) auto
  with \<open>distinct as\<close> have "length as \<le> length (heap s)" by (simp add: distinct_card)
  with assms show "list_forward s = Some as" and "list_backward s = Some (rev as)"
    by (auto simp: dll_def list_forward_def list_backward_def intro!: chain_traverse)
qed

lemma entry_eqD:
  assumes "entry h' = entry h"
  shows "key (h' ! b) = key (h ! b)" "val (h' ! b) = val (h ! b)"
    "timestamp (h' ! b) = timestamp (h ! b)"
  using fun_cong[OF assms, of b] by (simp_all add: entry_def)

lemma dll_cong:
  "heap s' = heap s \<Longrightarrow> head s' = head s \<Longrightarrow> tail s' = tail s \<Longrightarrow> dll s' as = dll s as"
  by (simp add: dll_def)

lemma idx_inj:
  assumes "distinct (map fst c)" "set c = (\<lambda>a. (f a, a)) ` A"
  shows "inj_on f A"
proof (rule inj_onI)
  fix a b assume "a \<in> A" "b \<in> A" "f a = f b"
  from \<open>a \<in> A\<close> \<open>b \<in> A\<close> assms(2) have "(f a, a) \<in> set c" "(f b, b) \<in> set c" by blast+
  with \<open>f a = f b\<close> have "(f a, a) \<in> set c" "(f a, b) \<in> set c" by simp_all
  with assms(1) show "a = b" by (rule eq_key_imp_eq_value)
qed

lemma idx_length:
  assumes "distinct as" "distinct (map fst c)" "set c = (\<lambda>a. (f a, a)) ` set as"
  shows "length c = length as"
proof -
  have "inj_on (\<lambda>a. (f a, a)) (set as)" by (rule inj_onI) simp
  then have "card (set c) = card (set as)" by (simp add: assms(3) card_image)
  moreover from assms(2) have "distinct c" by (simp add: distinct_map)
  ultimately show ?thesis using assms(1) by (simp add: distinct_card)
qed

lemma idx_lookup_Some:
  assumes "distinct (map fst c)" "set c = (\<lambda>a. (f a, a)) ` set as"
  shows "map_of c k = Some a \<longleftrightarrow> a \<in> set as \<and> f a = k"
  using assms by (auto simp: map_of_eq_Some_iff)

lemma idx_lookup_None:
  assumes "set c = (\<lambda>a. (f a, a)) ` set as"
  shows "map_of c k = None \<longleftrightarrow> (\<forall>a\<in>set as. f a \<noteq> k)"
  using assms by (force simp: map_of_eq_None_iff)

lemma filter_key_remove1:
  assumes "inj_on f (set as)" "a \<in> set as" "distinct as"
  shows "filter (\<lambda>b. f b \<noteq> f a) as = remove1 a as"
proof -
  have "filter (\<lambda>b. f b \<noteq> f a) as = filter (\<lambda>b. b \<noteq> a) as"
    by (rule filter_cong) (use assms in \<open>auto dest: inj_onD\<close>)
  also have "\<dots> = remove1 a as"
    using assms(3) by (simp add: distinct_remove1_removeAll removeAll_filter_not_eq) metis
  finally show ?thesis .
qed

lemma Map_set_fresh: "k \<notin> fst ` set m \<Longrightarrow> Map_set k a m = m @ [(k, a)]"
  by (induction m) auto

lemma remove1_last: "distinct as \<Longrightarrow> as \<noteq> [] \<Longrightarrow> remove1 (last as) as = butlast as"
  by (cases as rule: rev_cases) (auto simp: remove1_append)

lemma size_dec_frame:
  "cache (size_dec s) = cache s" "heap (size_dec s) = heap s" "head (size_dec s) = head s"
  "tail (size_dec s) = tail s" "capacity (size_dec s) = capacity s" "ttl (size_dec s) = ttl s"
  "responseTimes (size_dec s) = responseTimes s"
  "hits (stats (size_dec s)) = hits (stats s)" "misses (stats (size_dec s)) = misses (stats s)"
  "size_stat (stats (size_dec s)) = size_stat (stats s) - 1"
  by (simp_all add: size_dec_def)

lemma unlink_frame:
  "capacity (unlink a k s) = capacity s" "ttl (unlink a k s) = ttl s"
  "responseTimes (unlink a k s) = responseTimes s"
  "hits (stats (unlink a k s)) = hits (stats s)"
  "misses (stats (unlink a k s)) = misses (stats s)"
  "size_stat (stats (unlink a k s)) = size_stat (stats s) - 1"
  "length (heap (unlink a k s)) = length (heap s)"
  "entry (heap (unlink a k s)) = entry (heap s)"
  "cache (unlink a k s) = Map_delete k (cache s)"
  by (simp_all add: unlink_def size_dec_frame removeNode_frame)

lemma unlink_inv:
  assumes inv: "cache_inv s as" and a: "a \<in> set as"
  shows "cache_inv (unlink a (key (heap s ! a)) s) (remove1 a as)"
proof -
  let ?k = "key (heap s ! a)" and ?f = "\<lambda>b. key (heap s ! b)"
  let ?s' = "unlink a ?k s"
  from inv have d: "dll s as" and dk: "distinct (map fst (cache s))"
    and ix: "set (cache s) = (\<lambda>a. (?f a, a)) ` set as"
    and sz: "size_stat (stats s) = int (length (cache s))"
    by (simp_all add: cache_inv_def)
  from d have dist: "distinct as" by (simp add: dll_def)
  have inj: "inj_on ?f (set as)" using dk ix by (rule idx_inj)
  have "dll (removeNode a s) (remove1 a as)" using d a by (rule removeNode_dll)
  then have d': "dll ?s' (remove1 a as)"
    by (simp add: unlink_def size_dec_def dll_def)
  have dk': "distinct (map fst (cache ?s'))"
    using dk by (simp add: unlink_frame Map_delete_def distinct_map_filter)
  have keys: "\<And>b. key (heap ?s' ! b) = ?f b"
    by (rule entry_eqD) (simp add: unlink_frame)
  have ix': "set (cache ?s') = (\<lambda>b. (key (heap ?s' ! b), b)) ` set (remove1 a as)"
    using a dist inj by (auto simp: keys unlink_frame Map_delete_def ix dest: inj_onD)
  have "length (cache ?s') = length (remove1 a as)"
    using d' dk' ix' by (intro idx_length) (auto simp: dll_def)
  moreover have "length (cache s) = length as"
    using dist dk ix by (rule idx_length)
  moreover obtain n where "length as = Suc n" using a by (cases as) auto
  ultimately have sz': "size_stat (stats ?s') = int (length (cache ?s'))"
    using a sz by (simp add: unlink_frame(6) length_remove1)
  show ?thesis unfolding cache_inv_def using d' dk' ix' sz' by simp
qed

lemma delete_alt:
  "delete k s = (case map_of (cache s) k of None \<Rightarrow> (False, s)
                 | Some a \<Rightarrow> (True, unlink a k s))"
  unfolding delete_def unlink_def Map_get_def Let_def ..

lemma removeTail_alt:
  "removeTail s = (case tail s of None \<Rightarrow> s | Some t \<Rightarrow> unlink t (key (heap s ! t)) s)"
  unfolding removeTail_def unlink_def Let_def ..

lemma delete_frame:
  "capacity (snd (delete k s)) = capacity s" "ttl (snd (delete k s)) = ttl s"
  "responseTimes (snd (delete k s)) = responseTimes s"
  "hits (stats (snd (delete k s))) = hits (stats s)"
  "misses (stats (snd (delete k s))) = misses (stats s)"
  "length (heap (snd (delete k s))) = length (heap s)"
  "entry (heap (snd (delete k s))) = entry (heap s)"
  "cache (snd (delete k s)) = Map_delete k (cache s)"
  by (auto simp: delete_alt unlink_frame Map_delete_def map_of_eq_None_iff
      split: option.splits intro!: filter_True[symmetric])

lemma removeTail_frame:
  "capacity (removeTail s) = capacity s" "ttl (removeTail s) = ttl s"
  "responseTimes (removeTail s) = responseTimes s"
  "hits (stats (removeTail s)) = hits (stats s)"
  "misses (stats (removeTail s)) = misses (stats s)"
  "length (heap (removeTail s)) = length (heap s)"
  "entry (heap (removeTail s)) = entry (heap s)"
  by (simp_all add: removeTail_alt unlink_frame split: option.splits)

lemma delete_inv:
  assumes inv: "cache_inv s as"
  shows "cache_inv (snd (delete k s)) (filter (\<lambda>a. key (heap s ! a) \<noteq> k) as)"
    and "fst (delete k s) \<longleftrightarrow> k \<in> set (map fst (cache s))"
proof -
  let ?f = "\<lambda>b. key (heap s ! b)"
  from inv have d: "dll s as" and dk: "distinct (map fst (cache s))"
    and ix: "set (cache s) = (\<lambda>a. (?f a, a)) ` set as"
    by (simp_all add: cache_inv_def)
  from d have dist: "distinct as" by (simp add: dll_def)
  have inj: "inj_on ?f (set as)" using dk ix by (rule idx_inj)
  show "cache_inv (snd (delete k s)) (filter (\<lambda>a. ?f a \<noteq> k) as)"
  proof (cases "map_of (cache s) k")
    case None
    then have "\<forall>a\<in>set as. ?f a \<noteq> k" using idx_lookup_None[OF ix] by simp
    then have "filter (\<lambda>a. ?f a \<noteq> k) as = as" by simp
    with None inv show ?thesis by (simp add: delete_alt)
  next
    case (Some a)
    then have a: "a \<in> set as" "?f a = k" using idx_lookup_Some[OF dk ix] by auto
    have "filter (\<lambda>b. ?f b \<noteq> ?f a) as = remove1 a as"
      using inj a(1) dist by (rule filter_key_remove1)
    with unlink_inv[OF inv a(1)] Some a(2) show ?thesis by (simp add: delete_alt)
  qed
  have "fst (delete k s) \<longleftrightarrow> map_of (cache s) k \<noteq> None"
    by (simp add: delete_alt split: option.splits)
  then show "fst (delete k s) \<longleftrightarrow> k \<in> set (map fst (cache s))"
    by (simp add: map_of_eq_None_iff)
qed

lemma removeTail_inv:
  assumes inv: "cache_inv s as"
  shows "cache_inv (removeTail s) (butlast as)"
proof -
  from inv have d: "dll s as" by (simp add: cache_inv_def)
  then have tl: "tail s = first_opt (rev as)" and dist: "distinct as"
    by (auto simp: dll_def dest: chain_first')
  show ?thesis
  proof (cases "as = []")
    case True
    with tl inv show ?thesis by (simp add: removeTail_alt)
  next
    case False
    with tl have t: "tail s = Some (last as)" by (simp add: first_opt_rev)
    from False have "last as \<in> set as" by simp
    from unlink_inv[OF inv this] t dist False show ?thesis
      by (simp add: removeTail_alt remove1_last)
  qed
qed

lemma cache_inv_cong:
  assumes "heap s' = heap s" "head s' = head s" "tail s' = tail s" "cache s' = cache s"
    "size_stat (stats s') = size_stat (stats s)"
  shows "cache_inv s' as = cache_inv s as"
  using assms by (simp add: cache_inv_def dll_def)

lemma cache_invD:
  assumes "cache_inv s as"
  shows "dll s as" "distinct as" "\<forall>a\<in>set as. a < length (heap s)"
    "distinct (map fst (cache s))"
    "set (cache s) = (\<lambda>a. (key (heap s ! a), a)) ` set as"
    "size_stat (stats s) = int (length (cache s))"
    "length (cache s) = length as"
    "inj_on (\<lambda>a. key (heap s ! a)) (set as)"
proof -
  from assms show d: "dll s as" and dk: "distinct (map fst (cache s))"
    and ix: "set (cache s) = (\<lambda>a. (key (heap s ! a), a)) ` set as"
    and "size_stat (stats s) = int (length (cache s))"
    by (simp_all add: cache_inv_def)
  from d show dist: "distinct as" and "\<forall>a\<in>set as. a < length (heap s)"
    by (simp_all add: dll_def)
  from dist dk ix show "length (cache s) = length as" by (rule idx_length)
  from dk ix show "inj_on (\<lambda>a. key (heap s ! a)) (set as)" by (rule idx_inj)
qed

lemma moveToHead_inv:
  assumes inv: "cache_inv s as" and a: "a \<in> set as"
  shows "cache_inv (moveToHead a s) (a # remove1 a as)"
proof -
  note I = cache_invD[OF inv]
  have d': "dll (moveToHead a s) (a # remove1 a as)" using I(1) a by (rule moveToHead_dll)
  have keys: "\<And>b. key (heap (moveToHead a s) ! b) = key (heap s ! b)"
    by (rule entry_eqD) (simp add: moveToHead_frame)
  have "set (a # remove1 a as) = set as" using a I(2) by auto
  then show ?thesis
    unfolding cache_inv_def using d' I(4,5,6) by (simp add: keys moveToHead_frame)
qed

text \<open>Overwriting the value and the timestamp of a node\<close>

lemma content_update:
  fixes h :: "'v CacheNode list"
  defines "h' \<equiv> \<lambda>a v now. h[a := (h ! a)\<lparr>val := v, timestamp := now\<rparr>]"
  shows "nexts (h' a v now) = nexts h" "prevs (h' a v now) = prevs h"
    "length (h' a v now) = length h"
    "a < length h \<Longrightarrow> entry (h' a v now) = (entry h)(a := (key (h ! a), v, now))"
  by (cases "a < length h";
      auto simp: h'_def nexts_def prevs_def entry_def fun_eq_iff nth_list_update list_update_beyond)+

lemma set_kv_existing:
  assumes inv: "cache_inv s as" and look: "map_of (cache s) k = Some a"
  shows "cache_inv (set_kv k v now s) (a # remove1 a as)"
    and "entry (heap (set_kv k v now s)) = (entry (heap s))(a := (k, v, now))"
    and "cache (set_kv k v now s) = cache s"
proof -
  note I = cache_invD[OF inv]
  from look I(4,5) have a: "a \<in> set as" "key (heap s ! a) = k"
    by (auto simp: map_of_eq_Some_iff)
  with I(3) have al: "a < length (heap s)" by simp
  let ?s0 = "s\<lparr>heap := (heap s)[a := (heap s ! a)\<lparr>val := v, timestamp := now\<rparr>]\<rparr>"
  have eq: "set_kv k v now s = moveToHead a ?s0"
    using look by (simp add: set_kv_def Map_get_def)
  have ent0: "entry ((heap s)[a := (heap s ! a)\<lparr>val := v, timestamp := now\<rparr>]) = (entry (heap s))(a := (k, v, now))"
    using content_update(4)[OF al] a(2) by simp
  have keys0: "\<And>b. key ((heap s)[a := (heap s ! a)\<lparr>val := v, timestamp := now\<rparr>] ! b) = key (heap s ! b)"
    using al by (case_tac "b = a") simp_all
  have "cache_inv ?s0 as"
    using inv unfolding cache_inv_def dll_def by (simp add: content_update keys0)
  then show "cache_inv (set_kv k v now s) (a # remove1 a as)"
    unfolding eq using a(1) by (rule moveToHead_inv)
  show "entry (heap (set_kv k v now s)) = (entry (heap s))(a := (k, v, now))"
    unfolding eq by (simp add: moveToHead_frame ent0)
  show "cache (set_kv k v now s) = cache s"
    unfolding eq by (simp add: moveToHead_frame)
qed

lemma set_kv_new_alt:
  "map_of (cache s) k = None \<Longrightarrow>
   set_kv k v now s =
     (if int (length (cache (insert_new k v now s))) > capacity (insert_new k v now s)
      then removeTail (insert_new k v now s) else insert_new k v now s)"
  by (simp add: set_kv_def insert_new_def Map_get_def Let_def)

lemma insert_new_frame:
  "capacity (insert_new k v now s) = capacity s" "ttl (insert_new k v now s) = ttl s"
  "responseTimes (insert_new k v now s) = responseTimes s"
  "hits (stats (insert_new k v now s)) = hits (stats s)"
  "misses (stats (insert_new k v now s)) = misses (stats s)"
  "length (heap (insert_new k v now s)) = Suc (length (heap s))"
  "cache (insert_new k v now s) = Map_set k (length (heap s)) (cache s)"
  "entry (heap (insert_new k v now s)) =
     entry (heap s @ [\<lparr>key = k, val = v, timestamp = now, prev_node = None, next_node = None\<rparr>])"
  "size_stat (stats (insert_new k v now s)) = size_stat (stats s) + 1"
  by (simp_all add: insert_new_def Let_def addToHead_frame)

lemma insert_new_entry:
  "b < length (heap s) \<Longrightarrow> entry (heap (insert_new k v now s)) b = entry (heap s) b"
  "entry (heap (insert_new k v now s)) (length (heap s)) = (k, v, now)"
  by (simp_all add: insert_new_frame entry_def nth_append)

lemma insert_new_inv:
  assumes inv: "cache_inv s as" and look: "map_of (cache s) k = None"
  shows "cache_inv (insert_new k v now s) (length (heap s) # as)"
proof -
  note I = cache_invD[OF inv]
  let ?a = "length (heap s)"
  let ?n = "\<lparr>key = k, val = v, timestamp = now, prev_node = None, next_node = None\<rparr>"
  let ?s2 = "s\<lparr>heap := heap s @ [?n], cache := Map_set k ?a (cache s)\<rparr>"
  let ?s' = "insert_new k v now s"
  from I(3) have fresh: "?a \<notin> set as" by auto
  have "chain (nexts (heap s @ [?n])) (head s) as = chain (nexts (heap s)) (head s) as"
    by (rule chain_cong) (use I(3) in \<open>auto simp: nexts_def nth_append\<close>)
  moreover
  have "chain (prevs (heap s @ [?n])) (tail s) (rev as) = chain (prevs (heap s)) (tail s) (rev as)"
    by (rule chain_cong) (use I(3) in \<open>auto simp: prevs_def nth_append\<close>)
  ultimately have "dll ?s2 as" using I(1,3) by (auto simp: dll_def)
  then have "dll (addToHead ?a ?s2) (?a # as)"
    using fresh by (rule addToHead_dll) simp
  then have d': "dll ?s' (?a # as)"
    by (simp add: insert_new_def Let_def dll_def)
  from look have kf: "k \<notin> fst ` set (cache s)" by (simp add: map_of_eq_None_iff)
  then have c': "cache ?s' = cache s @ [(k, ?a)]"
    by (simp add: insert_new_frame Map_set_fresh)
  have keys: "\<And>b. b \<in> set as \<Longrightarrow> key (heap ?s' ! b) = key (heap s ! b)"
    using insert_new_entry(1)[of _ s k v now] I(3) by (auto simp: entry_def)
  have knew: "key (heap ?s' ! ?a) = k"
    using insert_new_entry(2)[of k v now s] by (simp add: entry_def)
  have "set (cache ?s') = (\<lambda>b. (key (heap ?s' ! b), b)) ` set (?a # as)"
    using keys by (auto simp: c' knew I(5))
  moreover have "distinct (map fst (cache ?s'))" using kf I(4) by (simp add: c')
  moreover have "size_stat (stats ?s') = int (length (cache ?s'))"
    using I(6) by (simp add: c' insert_new_frame(9))
  ultimately show ?thesis unfolding cache_inv_def using d' by simp
qed

lemma set_kv_new:
  assumes inv: "cache_inv s as" and look: "map_of (cache s) k = None"
  shows "cache_inv (set_kv k v now s)
           (if int (length as) + 1 > capacity s then butlast (length (heap s) # as)
            else length (heap s) # as)"
    and "\<And>b. b < length (heap s) \<Longrightarrow> entry (heap (set_kv k v now s)) b = entry (heap s) b"
    and "entry (heap (set_kv k v now s)) (length (heap s)) = (k, v, now)"
proof -
  note I = cache_invD[OF inv]
  note J = insert_new_inv[OF inv look, of v now]
  have len: "length (cache (insert_new k v now s)) = Suc (length as)"
    using cache_invD(7)[OF J] by simp
  show "cache_inv (set_kv k v now s)
           (if int (length as) + 1 > capacity s then butlast (length (heap s) # as)
            else length (heap s) # as)"
    using J removeTail_inv[OF J]
    by (simp add: set_kv_new_alt[OF look] len insert_new_frame(1))
  show "\<And>b. b < length (heap s) \<Longrightarrow> entry (heap (set_kv k v now s)) b = entry (heap s) b"
    by (simp add: set_kv_new_alt[OF look] removeTail_frame insert_new_entry)
  show "entry (heap (set_kv k v now s)) (length (heap s)) = (k, v, now)"
    by (simp add: set_kv_new_alt[OF look] removeTail_frame insert_new_entry)
qed

lemma clear_inv: "cache_inv (clear s) []"
  by (simp add: cache_inv_def dll_def clear_def)

lemma constructor_inv: "cache_inv (constructor c t) []"
  by (simp add: cache_inv_def dll_def constructor_def)

lemma refinesI: "cache_inv s as \<Longrightarrow> map (entry (heap s)) as = es \<Longrightarrow> refines s es"
  by (auto simp: refines_def)

lemma fst_entry [simp]: "fst (entry h a) = key (h ! a)"
  and snd_entry [simp]: "snd (entry h a) = (val (h ! a), timestamp (h ! a))"
  by (simp_all add: entry_def)

lemma find_unique:
  assumes "inj_on f (set as)" "a \<in> set as"
  shows "find (\<lambda>e. fst e = f a) (map (\<lambda>b. (f b, g b)) as) = Some (f a, g a)"
  using assms by (induction as) (auto dest: inj_onD)

lemma entry_pair: "entry h = (\<lambda>b. (key (h ! b), (val (h ! b), timestamp (h ! b))))"
  by (simp add: entry_def fun_eq_iff)

lemma lookup_Some:
  assumes inv: "cache_inv s as" and look: "map_of (cache s) k = Some a"
  shows "a \<in> set as" "key (heap s ! a) = k"
    "lru_lookup k (map (entry (heap s)) as) = Some (entry (heap s) a)"
proof -
  note I = cache_invD[OF inv]
  from look I(4,5) show a: "a \<in> set as" and k: "key (heap s ! a) = k"
    by (auto simp: map_of_eq_Some_iff)
  show "lru_lookup k (map (entry (heap s)) as) = Some (entry (heap s) a)"
    unfolding lru_lookup_def k[symmetric]
    by (subst (1 2) entry_pair) (rule find_unique[OF I(8) a])
qed

lemma lookup_None:
  assumes inv: "cache_inv s as" and look: "map_of (cache s) k = None"
  shows "lru_lookup k (map (entry (heap s)) as) = None"
proof -
  from look have "\<forall>a\<in>set as. key (heap s ! a) \<noteq> k"
    by (simp add: idx_lookup_None[OF cache_invD(5)[OF inv]])
  then show ?thesis by (auto simp: lru_lookup_def find_None_iff)
qed

lemma map_entry_filter:
  "map (entry h) (filter (\<lambda>a. key (h ! a) \<noteq> k) as) = lru_remove k (map (entry h) as)"
  by (simp add: lru_remove_def filter_map comp_def)

lemma map_entry_remove1:
  assumes inv: "cache_inv s as" and a: "a \<in> set as"
  shows "map (entry (heap s)) (remove1 a as) = lru_remove (key (heap s ! a)) (map (entry (heap s)) as)"
proof -
  note I = cache_invD[OF inv]
  have "remove1 a as = filter (\<lambda>b. key (heap s ! b) \<noteq> key (heap s ! a)) as"
    using filter_key_remove1[OF I(8) a I(2)] by simp
  then show ?thesis by (simp add: map_entry_filter)
qed

lemma delete_refines:
  assumes "refines s es"
  shows "refines (snd (delete k s)) (lru_remove k es)"
proof -
  from assms obtain as where inv: "cache_inv s as" and es: "es = map (entry (heap s)) as"
    by (auto simp: refines_def)
  show ?thesis
    by (rule refinesI[OF delete_inv(1)[OF inv]]) (simp add: delete_frame es map_entry_filter)
qed

lemma stats_wrappers:
  "heap (miss s) = heap s" "head (miss s) = head s" "tail (miss s) = tail s"
  "cache (miss s) = cache s" "size_stat (stats (miss s)) = size_stat (stats s)"
  "heap (hit s) = heap s" "head (hit s) = head s" "tail (hit s) = tail s"
  "cache (hit s) = cache s" "size_stat (stats (hit s)) = size_stat (stats s)"
  "heap (recordResponseTime d s) = heap s" "head (recordResponseTime d s) = head s"
  "tail (recordResponseTime d s) = tail s" "cache (recordResponseTime d s) = cache s"
  "stats (recordResponseTime d s) = stats s"
  "capacity (miss s) = capacity s" "capacity (hit s) = capacity s"
  "capacity (recordResponseTime d s) = capacity s"
  "ttl (miss s) = ttl s" "ttl (hit s) = ttl s" "ttl (recordResponseTime d s) = ttl s"
  by (simp_all add: miss_def hit_def recordResponseTime_def Let_def)

lemma refines_wrappers:
  "refines (miss s) es = refines s es" "refines (hit s) es = refines s es"
  "refines (recordResponseTime d s) es = refines s es"
  by (simp_all add: refines_def stats_wrappers cache_inv_cong[of "miss s" s]
      cache_inv_cong[of "hit s" s] cache_inv_cong[of "recordResponseTime d s" s])

lemma get_refines:
  assumes "refines s es"
  shows "refines (snd (get k t0 t1 t2 s)) (lru_get (ttl s) k t1 es)"
    and "fst (get k t0 t1 t2 s) = lru_get_result (ttl s) k t1 es"
proof -
  from assms obtain as where inv: "cache_inv s as" and es: "es = map (entry (heap s)) as"
    by (auto simp: refines_def)
  show "refines (snd (get k t0 t1 t2 s)) (lru_get (ttl s) k t1 es)"
  proof (cases "map_of (cache s) k")
    case None
    with lookup_None[OF inv None] assms show ?thesis
      by (simp add: get_def Map_get_def lru_get_def es refines_wrappers)
  next
    case (Some a)
    note L = lookup_Some[OF inv Some]
    show ?thesis
    proof (cases "t1 - timestamp (heap s ! a) > ttl s")
      case True
      with Some L(3) delete_refines[OF assms, of k] show ?thesis
        by (simp add: get_def Map_get_def lru_get_def es refines_wrappers lru_expired_def)
    next
      case False
      have "refines (moveToHead a s) (entry (heap s) a # lru_remove k es)"
        by (rule refinesI[OF moveToHead_inv[OF inv L(1)]])
          (simp add: moveToHead_frame es map_entry_remove1[OF inv L(1)] L(2))
      with False Some L(3) show ?thesis
        by (simp add: get_def Map_get_def lru_get_def es refines_wrappers lru_expired_def Let_def)
    qed
  qed
  show "fst (get k t0 t1 t2 s) = lru_get_result (ttl s) k t1 es"
  proof (cases "map_of (cache s) k")
    case None
    with lookup_None[OF inv None] show ?thesis
      by (simp add: get_def Map_get_def lru_get_result_def es)
  next
    case (Some a)
    have "val (heap (moveToHead a s) ! a) = val (heap s ! a)"
      by (rule entry_eqD) (simp add: moveToHead_frame)
    with Some lookup_Some(3)[OF inv Some] show ?thesis
      by (simp add: get_def Map_get_def lru_get_result_def es lru_expired_def Let_def
          stats_wrappers)
  qed
qed

lemma set_kv_refines:
  assumes "refines s es"
  shows "refines (set_kv k v now s) (lru_set (capacity s) k v now es)"
proof -
  from assms obtain as where inv: "cache_inv s as" and es: "es = map (entry (heap s)) as"
    by (auto simp: refines_def)
  note I = cache_invD[OF inv]
  show ?thesis
  proof (cases "map_of (cache s) k")
    case None
    let ?a = "length (heap s)"
    note S = set_kv_new[OF inv None, where v=v and now=now]
    have m: "map (entry (heap (set_kv k v now s))) (?a # as) = (k, v, now) # es"
      using S(2,3) I(3) by (simp add: es)
    have "map (entry (heap (set_kv k v now s)))
            (if int (length as) + 1 > capacity s then butlast (?a # as) else ?a # as) =
          (if int (length es) + 1 > capacity s then butlast ((k, v, now) # es)
           else (k, v, now) # es)"
      using m by (simp only: map_butlast if_distrib[of "map _"] es length_map)
    with S(1) lookup_None[OF inv None] show ?thesis
      by (intro refinesI[OF S(1)]) (simp add: lru_set_def es)
  next
    case (Some a)
    note L = lookup_Some[OF inv Some]
    note S = set_kv_existing[OF inv Some, where v=v and now=now]
    from I(2) have "a \<notin> set (remove1 a as)" by simp
    then have "map (entry (heap (set_kv k v now s))) (remove1 a as) =
               map (entry (heap s)) (remove1 a as)"
      by (auto simp: S(2))
    then have "map (entry (heap (set_kv k v now s))) (a # remove1 a as) =
               (k, v, now) # lru_remove k es"
      by (simp add: S(2) es map_entry_remove1[OF inv L(1)] L(2))
    with L(3) show ?thesis
      by (intro refinesI[OF S(1)]) (simp add: lru_set_def es)
  qed
qed

lemma clear_refines: "refines (clear s) []"
  by (rule refinesI[OF clear_inv]) simp

lemma constructor_refines: "refines (constructor c t) []"
  by (rule refinesI[OF constructor_inv]) simp

lemma fold_delete_refines:
  "refines s es \<Longrightarrow>
   refines (fold (\<lambda>k s'. snd (delete k s')) ks s) (filter (\<lambda>e. fst e \<notin> set ks) es)"
proof (induction ks arbitrary: s es)
  case Nil
  then show ?case by simp
next
  case (Cons k ks)
  from Cons.IH[OF delete_refines[OF Cons.prems, of k]]
  show ?case by (simp add: lru_remove_def conj_commute)
qed

lemma cleanupExpired_refines:
  assumes "refines s es"
  shows "refines (cleanupExpired now s) (lru_sweep (ttl s) now es)"
proof -
  from assms obtain as where inv: "cache_inv s as" and es: "es = map (entry (heap s)) as"
    by (auto simp: refines_def)
  note I = cache_invD[OF inv]
  let ?ks = "map fst (filter (\<lambda>e. now - timestamp (heap s ! snd e) > ttl s) (cache s))"
  have "filter (\<lambda>e. fst e \<notin> set ?ks) es = lru_sweep (ttl s) now es"
    unfolding lru_sweep_def
  proof (rule filter_cong[OF refl])
    fix e assume "e \<in> set es"
    then obtain a where a: "a \<in> set as" "e = entry (heap s) a" by (auto simp: es)
    have "fst e \<in> set ?ks \<longleftrightarrow> now - timestamp (heap s ! a) > ttl s"
      using a I(5) inj_onD[OF I(8)] by (auto simp: image_iff) 
    then show "(fst e \<notin> set ?ks) = (\<not> lru_expired (ttl s) now e)"
      by (simp add: lru_expired_def a(2))
  qed
  with fold_delete_refines[OF assms, of ?ks] show ?thesis
    by (simp add: cleanupExpired_def Let_def)
qed

lemma set_kv_frame_conj:
  "capacity (set_kv k v now s) = capacity s \<and> ttl (set_kv k v now s) = ttl s \<and>
   responseTimes (set_kv k v now s) = responseTimes s \<and>
   hits (stats (set_kv k v now s)) = hits (stats s) \<and>
   misses (stats (set_kv k v now s)) = misses (stats s)"
proof (cases "map_of (cache s) k")
  case None
  show ?thesis
    by (simp add: set_kv_new_alt[OF None] removeTail_frame insert_new_frame)
next
  case (Some a)
  then show ?thesis
    by (simp add: set_kv_def Map_get_def moveToHead_frame)
qed

lemma set_kv_frame:
  "capacity (set_kv k v now s) = capacity s" "ttl (set_kv k v now s) = ttl s"
  "responseTimes (set_kv k v now s) = responseTimes s"
  "hits (stats (set_kv k v now s)) = hits (stats s)"
  "misses (stats (set_kv k v now s)) = misses (stats s)"
  using set_kv_frame_conj[of k v now s] by simp_all

lemma get_frame:
  "capacity (snd (get k t0 t1 t2 s)) = capacity s" "ttl (snd (get k t0 t1 t2 s)) = ttl s"
  by (simp_all add: get_def Let_def stats_wrappers delete_frame moveToHead_frame
      split: option.splits)

lemma fold_delete_frame:
  "capacity (fold (\<lambda>k s'. snd (delete k s')) ks s) = capacity s"
  "ttl (fold (\<lambda>k s'. snd (delete k s')) ks s) = ttl s"
  "responseTimes (fold (\<lambda>k s'. snd (delete k s')) ks s) = responseTimes s"
  "hits (stats (fold (\<lambda>k s'. snd (delete k s')) ks s)) = hits (stats s)"
  "misses (stats (fold (\<lambda>k s'. snd (delete k s')) ks s)) = misses (stats s)"
  by (induction ks arbitrary: s) (simp_all add: delete_frame)

lemma cleanupExpired_frame:
  "capacity (cleanupExpired now s) = capacity s" "ttl (cleanupExpired now s) = ttl s"
  "responseTimes (cleanupExpired now s) = responseTimes s"
  "hits (stats (cleanupExpired now s)) = hits (stats s)"
  "misses (stats (cleanupExpired now s)) = misses (stats s)"
  by (simp_all add: cleanupExpired_def Let_def fold_delete_frame)

lemma exec_config: "capacity (exec c s) = capacity s" "ttl (exec c s) = ttl s"
  by (cases c; simp add: get_frame set_kv_frame delete_frame cleanupExpired_frame
      clear_def destroy_def)+

lemma run_config: "capacity (run cs s) = capacity s" "ttl (run cs s) = ttl s"
  by (induction cs arbitrary: s) (simp_all add: exec_config)

lemma exec_refines:
  "refines s es \<Longrightarrow> refines (exec c s) (lru_step (capacity s) (ttl s) c es)"
  by (cases c)
    (simp_all add: get_refines set_kv_refines delete_refines clear_refines
      cleanupExpired_refines destroy_def)

lemma run_refines:
  "refines s es \<Longrightarrow> refines (run cs s) (lru_run (capacity s) (ttl s) cs es)"
proof (induction cs arbitrary: s es)
  case Nil
  then show ?case by simp
next
  case (Cons c cs)
  from Cons.IH[OF exec_refines[OF Cons.prems, of c]] show ?case
    by (simp add: exec_config)
qed

lemma reachable_refines:
  "refines (run cs (constructor c t)) (lru_run c (t * 1000) cs [])"
  using run_refines[OF constructor_refines, of cs c t] by (simp add: constructor_def)

lemma refines_obs:
  assumes "refines s es"
  shows "recency_list s = Some es"
    and "map_option (map (entry (heap s))) (list_backward s) = Some (rev es)"
    and "set (index_keys s) = fst ` set es"
    and "distinct (map fst es)"
    and "length (cache s) = length es"
    and "size_stat (stats s) = int (length es)"
    and "distinct (index_keys s)"
proof -
  from assms obtain as where inv: "cache_inv s as" and es: "es = map (entry (heap s)) as"
    by (auto simp: refines_def)
  note I = cache_invD[OF inv]
  note T = dll_traverse[OF I(1)]
  show "recency_list s = Some es" by (simp add: recency_list_def T es)
  show "map_option (map (entry (heap s))) (list_backward s) = Some (rev es)"
    by (simp add: T es rev_map)
  show "set (index_keys s) = fst ` set es"
    by (auto simp: index_keys_def I(5) es image_iff)
  have "map fst es = map (\<lambda>a. key (heap s ! a)) as" by (simp add: es)
  then show "distinct (map fst es)" using I(2,8) by (simp add: distinct_map)
  show "length (cache s) = length es" by (simp add: I(7) es)
  then show "size_stat (stats s) = int (length es)" by (simp add: I(6))
  show "distinct (index_keys s)" by (simp add: index_keys_def I(4))
qed

lemma record_latest:
  assumes "length w \<le> 100"
  shows "responseTimes (recordResponseTime d (s\<lparr>responseTimes := w\<rparr>)) = latest 100 (w @ [d])"
proof (cases "length w = 100")
  case True
  then have "length w + 1 - 100 = Suc 0" and "w \<noteq> []" by auto
  with True show ?thesis
    by (simp add: recordResponseTime_def Let_def latest_def drop_Suc)
next
  case False
  with assms show ?thesis
    by (simp add: recordResponseTime_def Let_def latest_def)
qed

lemma recordResponseTime_latest:
  "length (responseTimes s) \<le> 100 \<Longrightarrow>
   responseTimes (recordResponseTime d s) = latest 100 (responseTimes s @ [d])"
  using record_latest[of "responseTimes s" d s] by simp

lemma get_responseTimes:
  "length (responseTimes s) \<le> 100 \<Longrightarrow>
   responseTimes (snd (get k t0 t1 t2 s)) = latest 100 (responseTimes s @ [t2 - t0])"
  by (simp add: get_def Let_def recordResponseTime_latest miss_def hit_def delete_frame
      moveToHead_frame split: option.splits)

lemma length_latest: "length (latest n w) \<le> n"
  by (simp add: latest_def)

lemma latest_latest_snoc: "latest n (latest n w @ [d]) = latest n (w @ [d])"
  by (cases "length w \<le> n") (auto simp: latest_def Suc_diff_le)

lemma latest_idem: "length w \<le> n \<Longrightarrow> latest n w = w"
  by (simp add: latest_def)

lemma latest_samples: "latest n (samples cs (latest n w)) = latest n (samples cs w)"
proof (induction cs arbitrary: w)
  case Nil
  then show ?case by (simp add: latest_def)
next
  case (Cons c cs)
  show ?case
  proof (cases c)
    case (Get k t0 t1 t2)
    have "latest n (samples cs (latest n w @ [t2 - t0])) =
          latest n (samples cs (latest n (latest n w @ [t2 - t0])))"
      by (simp only: Cons.IH)
    also have "\<dots> = latest n (samples cs (w @ [t2 - t0]))"
      by (simp only: latest_latest_snoc Cons.IH)
    finally show ?thesis by (simp add: Get)
  qed (simp_all add: Cons.IH)
qed

lemma exec_responseTimes:
  assumes "length (responseTimes s) \<le> 100"
  shows "responseTimes (exec c s) = latest 100 (samples [c] (responseTimes s))"
  using assms
  by (cases c)
    (simp_all add: get_responseTimes set_kv_frame delete_frame cleanupExpired_frame
      clear_def destroy_def latest_idem)

lemma run_responseTimes:
  assumes "length (responseTimes s) \<le> 100"
  shows "responseTimes (run cs s) = latest 100 (samples cs (responseTimes s))"
  using assms
proof (induction cs arbitrary: s)
  case Nil
  then show ?case by (simp add: latest_idem)
next
  case (Cons c cs)
  have e: "responseTimes (exec c s) = latest 100 (samples [c] (responseTimes s))"
    using Cons.prems by (rule exec_responseTimes)
  then have "length (responseTimes (exec c s)) \<le> 100" by (simp add: length_latest)
  from Cons.IH[OF this] have
    "responseTimes (run (c # cs) s) = latest 100 (samples cs (latest 100 (samples [c] (responseTimes s))))"
    by (simp add: e)
  also have "\<dots> = latest 100 (samples cs (samples [c] (responseTimes s)))"
    by (rule latest_samples)
  also have "samples cs (samples [c] (responseTimes s)) = samples (c # cs) (responseTimes s)"
    by (cases c) simp_all
  finally show ?case .
qed

lemma lookup_in:
  "distinct (map fst es) \<Longrightarrow> e \<in> set es \<Longrightarrow> lru_lookup (fst e) es = Some e"
  unfolding lru_lookup_def by (induction es) (auto simp: rev_image_eqI)

lemma lookup_notin: "k \<notin> fst ` set es \<Longrightarrow> lru_lookup k es = None"
  unfolding lru_lookup_def by (induction es) auto

lemma lookup_SomeD: "lru_lookup k es = Some e \<Longrightarrow> e \<in> set es \<and> fst e = k"
  unfolding lru_lookup_def by (induction es) (auto split: if_splits)

lemma length_lru_remove:
  "distinct (map fst es) \<Longrightarrow> k \<in> fst ` set es \<Longrightarrow> Suc (length (lru_remove k es)) = length es"
proof (induction es)
  case Nil
  then show ?case by simp
next
  case (Cons e es)
  show ?case
  proof (cases "fst e = k")
    case True
    with Cons.prems have "k \<notin> fst ` set es" by auto
    then have "filter (\<lambda>x. fst x \<noteq> k) es = es" by (auto intro: filter_True)
    with True show ?thesis by (simp add: lru_remove_def)
  next
    case False
    with Cons show ?thesis by (auto simp: lru_remove_def)
  qed
qed

lemma keys_lru_remove: "fst ` set (lru_remove k es) = fst ` set es - {k}"
  by (auto simp: lru_remove_def)

lemma get_counters:
  "misses (stats (snd (get k t0 t1 t2 s))) =
     misses (stats s) + (if fst (get k t0 t1 t2 s) = None then 1 else 0)"
  "hits (stats (snd (get k t0 t1 t2 s))) =
     hits (stats s) + (if fst (get k t0 t1 t2 s) = None then 0 else 1)"
  by (simp_all add: get_def Let_def miss_def hit_def recordResponseTime_def delete_frame
      moveToHead_frame split: option.splits)

lemma delete_absent: "k \<notin> set (index_keys s) \<Longrightarrow> delete k s = (False, s)"
  by (simp add: delete_alt index_keys_def map_of_eq_None_iff[symmetric])

lemma delete_twice: "\<not> fst (delete k (snd (delete k s)))"
proof -
  have "map_of (cache (snd (delete k s))) k = None"
    by (auto simp: delete_frame Map_delete_def map_of_eq_None_iff)
  then show ?thesis by (simp add: delete_alt)
qed

lemma index_keys_delete: "index_keys (snd (delete k s)) = filter (\<lambda>k'. k' \<noteq> k) (index_keys s)"
  by (simp add: index_keys_def delete_frame Map_delete_def filter_map comp_def)

lemma removeTail_refines:
  assumes "refines s es"
  shows "refines (removeTail s) (butlast es)"
proof -
  from assms obtain as where inv: "cache_inv s as" and es: "es = map (entry (heap s)) as"
    by (auto simp: refines_def)
  show ?thesis
    by (rule refinesI[OF removeTail_inv[OF inv]]) (simp add: removeTail_frame es map_butlast)
qed

lemma lru_step_length:
  assumes "0 \<le> c" "int (length es) \<le> c"
  shows "int (length (lru_step c t a es)) \<le> c"
proof (cases a)
  case (Get k t0 t1 t2)
  have r: "length (lru_remove k es) \<le> length es" by (simp add: lru_remove_def)
  show ?thesis
  proof (cases "lru_lookup k es")
    case None
    with assms Get show ?thesis by (simp add: lru_get_def)
  next
    case (Some e)
    then have "e \<in> set es" "\<not> fst e \<noteq> k" by (auto dest: lookup_SomeD)
    then have "length (lru_remove k es) < length es"
      unfolding lru_remove_def by (rule length_filter_less)
    with assms Get Some show ?thesis by (simp add: lru_get_def)
  qed
next
  case (Set k v now)
  show ?thesis
  proof (cases "lru_lookup k es")
    case None
    with assms Set show ?thesis by (simp add: lru_set_def)
  next
    case (Some e)
    then have "e \<in> set es" "\<not> fst e \<noteq> k" by (auto dest: lookup_SomeD)
    then have "length (lru_remove k es) < length es"
      unfolding lru_remove_def by (rule length_filter_less)
    with assms Set Some show ?thesis by (simp add: lru_set_def)
  qed
next
  case (Delete k)
  have "length (lru_remove k es) \<le> length es" by (simp add: lru_remove_def)
  with assms Delete show ?thesis by simp
next
  case (CleanupExpired now)
  have "length (lru_sweep t now es) \<le> length es" by (simp add: lru_sweep_def)
  with assms CleanupExpired show ?thesis by simp
qed (use assms in simp_all)

lemma lru_run_length:
  "0 \<le> c \<Longrightarrow> int (length es) \<le> c \<Longrightarrow> int (length (lru_run c t cs es)) \<le> c"
  by (induction cs arbitrary: es) (simp_all add: lru_step_length)

lemma reachable_structure:
  fixes s :: "'v LRUCache"
  assumes "s = run cs (constructor c t)"
  shows "\<exists>as. list_forward s = Some as \<and> list_backward s = Some (rev as) \<and> distinct as \<and>
              distinct (index_keys s) \<and>
              set (cache s) = (\<lambda>a. (key (heap s ! a), a)) ` set as \<and>
              length (cache s) = length as \<and>
              head s = first_opt as \<and> tail s = first_opt (rev as) \<and>
              map (entry (heap s)) as = lru_run c (t * 1000) cs []"
proof -
  from reachable_refines[of cs c t] assms obtain as where
    inv: "cache_inv s as" and es: "map (entry (heap s)) as = lru_run c (t * 1000) cs []"
    by (auto simp: refines_def)
  note I = cache_invD[OF inv]
  note T = dll_traverse[OF I(1)]
  from I(1) have "head s = first_opt as" "tail s = first_opt (rev as)"
    by (auto simp: dll_def dest: chain_first')
  with T I es show ?thesis by (auto simp: index_keys_def)
qed

lemma reachable_recency:
  "recency_list (run cs (constructor c t)) = Some (lru_run c (t * 1000) cs [])"
  using refines_obs(1)[OF reachable_refines] .

lemma reachable_keys:
  "set (index_keys (run cs (constructor c t))) = fst ` set (lru_run c (t * 1000) cs [])"
  using refines_obs(3)[OF reachable_refines] .

lemma reachable_window: "length (responseTimes (run cs (constructor c t))) \<le> 100"
proof -
  have "length (responseTimes (constructor c t)) \<le> 100" by (simp add: constructor_def)
  from run_responseTimes[OF this, of cs] show ?thesis by (simp add: length_latest)
qed

lemmas lru_defs = lru_get_def lru_get_result_def lru_set_def lru_lookup_def lru_remove_def
  lru_expired_def lru_sweep_def

lemma lru_run_append:
  "lru_run c t (cs @ ds) es = lru_run c t ds (lru_run c t cs es)"
  by (induction cs arbitrary: es) simp_all

section \<open>The claims\<close>

lemma lru_run_nonpositive: "c \<le> 0 \<Longrightarrow> lru_run c t cs ([] :: 'v entry list) = []"
proof (induction cs)
  case Nil
  then show ?case by simp
next
  case (Cons a cs)
  then have "lru_step c t a ([] :: 'v entry list) = []"
    by (cases a) (simp_all add: lru_get_def lru_set_def lru_lookup_def lru_remove_def lru_sweep_def)
  with Cons show ?case by simp
qed

text \<open>
  C8. \<open>clear\<close>, in any state: the index and the list are empty and the reported size is 0,
  the window of durations is empty, the hit and miss counters and the configuration are
  those of before, and the next \<open>get\<close>, of any key, misses.
\<close>

theorem clear_frame:
  "cache (clear s) = [] \<and> head (clear s) = None \<and> tail (clear s) = None \<and>
   recency_list (clear s) = Some [] \<and>
   size_stat (getStats tie_up (clear s)) = 0 \<and>
   responseTimes (clear s) = [] \<and>
   hits (getStats tie_up (clear s)) = hits (getStats tie_up s) \<and>
   misses (getStats tie_up (clear s)) = misses (getStats tie_up s) \<and>
   capacity (clear s) = capacity s \<and> ttl (clear s) = ttl s \<and>
   fst (get k t0 t1 t2 (clear s)) = None \<and>
   misses (stats (snd (get k t0 t1 t2 (clear s)))) = misses (stats s) + 1 \<and>
   hits (stats (snd (get k t0 t1 t2 (clear s)))) = hits (stats s)"
  by (simp add: clear_def getStats_def recency_list_def list_forward_def get_def Map_get_def
      miss_def recordResponseTime_def Let_def)

text \<open>
  C6, as the claim states it, fails for the class \<^verbatim>\<open>LRUCache\<close>: its constructor has no
  check, and with capacity 0 and a TTL of -1 second it returns a cache, on which a \<open>set\<close>
  followed by a \<open>get\<close> of the same key misses.
\<close>

theorem constructor_invalid_counterexample:
  "constructor 0 (- 1) =
     (\<lparr>capacity = 0, cache = [], heap = [], head = None, tail = None, ttl = - 1000,
       stats = \<lparr>hits = 0, misses = 0, size_stat = 0, averageResponseTime = 0\<rparr>,
       responseTimes = []\<rparr> :: nat LRUCache) \<and>
   fst (get ''a'' 0 0 0 (set_kv ''a'' (1::nat) 0 (constructor 0 (- 1)))) = None"
  by (simp add: constructor_def set_kv_def Map_get_def addToHead_def set_prev_def set_next_def
      removeTail_def removeNode_def Map_delete_def size_dec_def get_def Let_def)

text \<open>
  C6, amended, for the class \<^verbatim>\<open>LRUCache\<close> only. Its constructor returns a cache for every
  capacity and every TTL, with the capacity as given and the TTL in milliseconds; a
  cache built with a capacity of 0 or less holds no entry after any sequence of calls.
  The class \<^verbatim>\<open>EnhancedLRUCache\<close> passes its options to the package \<^verbatim>\<open>lru-cache\<close>, which is
  not part of the repository: nothing is stated about its constructor.
\<close>

theorem constructor_total:
  "capacity (constructor c t :: 'v LRUCache) = c \<and>
   ttl (constructor c t :: 'v LRUCache) = t * 1000 \<and>
   recency_list (constructor c t :: 'v LRUCache) = Some [] \<and>
   (c \<le> 0 \<longrightarrow> recency_list (run cs (constructor c t :: 'v LRUCache)) = Some [] \<and>
               cache (run cs (constructor c t :: 'v LRUCache)) = [])"
proof -
  have "recency_list (constructor c t :: 'v LRUCache) = Some []"
    using refines_obs(1)[OF constructor_refines] .
  moreover have "recency_list (run cs (constructor c t :: 'v LRUCache)) = Some []"
    and "cache (run cs (constructor c t :: 'v LRUCache)) = []" if "c \<le> 0"
    using refines_obs(1,5)[OF reachable_refines, of cs c t] that
    by (simp_all add: lru_run_nonpositive)
  ultimately show ?thesis by (simp add: constructor_def)
qed

theorem constructor_total_witness:
  "(0::int) \<le> 0 \<and>
   cache (run [Set ''a'' (1::nat) 5, Get ''a'' 6 6 6] (constructor 0 60)) = []"
  using constructor_total[of 0 60 "[Set ''a'' (1::nat) 5, Get ''a'' 6 6 6]"] by simp

text \<open>
  C5, as the claim states it, fails: with a TTL of 1 second, a key set at time 0 and read
  at time 600 keeps the timestamp 0, and a read at time 1200 (600 ms after the last read)
  finds it expired.
\<close>

theorem get_refresh_counterexample:
  "(let s1 = set_kv ''k'' (7::nat) 0 (constructor 3 1);
        r1 = get ''k'' 600 600 600 s1;
        r2 = get ''k'' 1200 1200 1200 (snd r1)
    in fst r1 = Some 7 \<and> timestamp (heap (snd r1) ! 0) = 0 \<and> fst r2 = None)"
  by (simp add: constructor_def set_kv_def Map_get_def addToHead_def set_prev_def set_next_def
      removeNode_def moveToHead_def get_def hit_def recordResponseTime_def Let_def)

text \<open>
  C5, amended. A \<open>get\<close> of a key that is in the index and not expired returns its value
  and leaves the timestamp of its node as it was: only \<open>set\<close> writes the timestamp, and
  the age that the TTL tests is the time since the last \<open>set\<close>.
\<close>

theorem get_keeps_timestamp:
  assumes "Map_get (cache s) k = Some node"
    and "\<not> checkTime - timestamp (heap s ! node) > ttl s"
  shows "fst (get k startTime checkTime endTime s) = Some (val (heap s ! node)) \<and>
         timestamp (heap (snd (get k startTime checkTime endTime s)) ! node) =
           timestamp (heap s ! node) \<and>
         Map_get (cache (snd (get k startTime checkTime endTime s))) k = Some node"
proof -
  have "entry (heap (moveToHead node s)) = entry (heap s)" by (simp add: moveToHead_frame)
  note e = entry_eqD[OF this]
  from assms show ?thesis
    by (simp add: get_def Let_def stats_wrappers e moveToHead_frame)
qed

theorem get_keeps_timestamp_witness:
  "(let s = set_kv ''k'' (7::nat) 0 (constructor 3 1)
    in Map_get (cache s) ''k'' = Some 0 \<and> \<not> 600 - timestamp (heap s ! 0) > ttl s \<and>
       timestamp (heap (snd (get ''k'' 600 600 600 s)) ! 0) = 0)"
proof -
  let ?s = "set_kv ''k'' (7::nat) 0 (constructor 3 1)"
  have s: "?s = \<lparr>capacity = 3, cache = [(''k'', 0)],
      heap = [\<lparr>key = ''k'', val = 7, timestamp = 0, prev_node = None, next_node = None\<rparr>],
      head = Some 0, tail = Some 0, ttl = 1000,
      stats = \<lparr>hits = 0, misses = 0, size_stat = 1, averageResponseTime = 0\<rparr>,
      responseTimes = []\<rparr>"
    by (simp add: constructor_def set_kv_def Map_get_def addToHead_def set_prev_def
        set_next_def Let_def)
  have h1: "Map_get (cache ?s) ''k'' = Some 0" by (simp add: s Map_get_def)
  have h2: "\<not> 600 - timestamp (heap ?s ! 0) > ttl ?s" by (simp add: s)
  from get_keeps_timestamp[OF h1 h2, of 600 600] h1 h2 show ?thesis
    by (simp add: Let_def s)
qed

lemma Math_round_near: "\<bar>real_of_int (Math_round b x) - x\<bar> \<le> 1 / 2"
proof (cases "frac x = 1 / 2 \<and> \<not> b")
  case True
  then have m: "Math_round b x = \<lfloor>x\<rfloor>" unfolding Math_round_def by (rule if_P)
  from True have "x - real_of_int \<lfloor>x\<rfloor> = 1 / 2" by (simp add: frac_def)
  then show ?thesis unfolding m by linarith
next
  case False
  then have m: "Math_round b x = \<lfloor>x + 1 / 2\<rfloor>" unfolding Math_round_def by (rule if_not_P)
  have "real_of_int \<lfloor>x + 1 / 2\<rfloor> \<le> x + 1 / 2" by (rule of_int_floor_le)
  moreover have "x + 1 / 2 < real_of_int \<lfloor>x + 1 / 2\<rfloor> + 1" by linarith
  ultimately show ?thesis unfolding m by linarith
qed

lemma Math_round_round: "frac x \<noteq> 1 / 2 \<Longrightarrow> Math_round b x = round x"
  by (simp add: Math_round_def round_def)

lemma average_rounded:
  assumes "responseTimes s \<noteq> []"
  defines "mean \<equiv> real_of_int (sum_list (responseTimes s)) / real (length (responseTimes s))"
  shows "\<exists>n::int. averageResponseTime (getStats b s) = real_of_int n / 100 \<and>
                 \<bar>real_of_int n - mean * 100\<bar> \<le> 1 / 2"
    and "\<bar>averageResponseTime (getStats b s) - mean\<bar> \<le> 1 / 200"
    and "frac (mean * 100) \<noteq> 1 / 2 \<Longrightarrow>
         averageResponseTime (getStats b s) = real_of_int (round (mean * 100)) / 100"
proof -
  let ?n = "Math_round b (mean * 100)"
  have a: "averageResponseTime (getStats b s) = real_of_int ?n / 100"
    using assms(1) by (simp add: getStats_def calculateAverageResponseTime_def Let_def mean_def)
  have n: "\<bar>real_of_int ?n - mean * 100\<bar> \<le> 1 / 2" by (rule Math_round_near)
  from a n show "\<exists>n::int. averageResponseTime (getStats b s) = real_of_int n / 100 \<and>
                 \<bar>real_of_int n - mean * 100\<bar> \<le> 1 / 2"
    by blast
  have "averageResponseTime (getStats b s) - mean = (real_of_int ?n - mean * 100) / 100"
    by (simp add: a diff_divide_distrib)
  then have "\<bar>averageResponseTime (getStats b s) - mean\<bar> =
             \<bar>real_of_int ?n - mean * 100\<bar> / 100"
    by (simp only: abs_divide abs_numeral)
  moreover from n have "\<bar>real_of_int ?n - mean * 100\<bar> / 100 \<le> 1 / 200" by simp
  ultimately show "\<bar>averageResponseTime (getStats b s) - mean\<bar> \<le> 1 / 200"
    by (simp only:)
  show "averageResponseTime (getStats b s) = real_of_int (round (mean * 100)) / 100"
    if "frac (mean * 100) \<noteq> 1 / 2"
    using that by (simp add: a Math_round_round)
qed

text \<open>
  C7, as the claim states it, fails: \<open>set\<close> records no duration, and \<open>clear\<close> drops the
  durations recorded before it. After a \<open>set\<close> on a new cache the window is empty and the
  average is 0; after a \<open>get\<close> that took 5 ms and a \<open>clear\<close> the window is empty and the
  average is 0, not 5.
\<close>

theorem set_sample_counterexample:
  "responseTimes (set_kv ''a'' (1::int) 5 (constructor 3 60)) = [] \<and>
   averageResponseTime (getStats True (set_kv ''a'' (1::int) 5 (constructor 3 60))) = 0 \<and>
   responseTimes (run [Get ''x'' 0 0 5, Clear] (constructor 3 60 :: int LRUCache)) = [] \<and>
   averageResponseTime (getStats True (run [Get ''x'' 0 0 5, Clear]
     (constructor 3 60 :: int LRUCache))) = 0"
proof -
  have 0: "length (responseTimes (constructor 3 60 :: int LRUCache)) \<le> 100"
    by (simp add: constructor_def)
  have "responseTimes (run [Get ''x'' 0 0 5, Clear] (constructor 3 60 :: int LRUCache)) = []"
    by (subst run_responseTimes[OF 0]) (simp add: latest_def)
  then show ?thesis
    by (simp add: set_kv_frame getStats_def calculateAverageResponseTime_def constructor_def
        del: run.simps)
qed

text \<open>
  C7, amended. Only \<open>get\<close> records a duration (one for each call, its end time minus its
  start time); \<open>set\<close> records none, and \<open>clear\<close> empties the window. After any sequence of
  calls on a new cache the window holds the latest 100, at most, of the durations
  recorded since the last \<open>clear\<close>. The average that \<open>getStats\<close> reports is 0 when the
  window is empty; otherwise it is a whole number of hundredths, at most half a hundredth
  away from the arithmetic mean of the window: the mean rounded to two decimal places.
  Where the mean is not exactly halfway between two hundredths this is the nearest
  hundredth; at such a half nothing is said about which of the two it is.
\<close>

theorem average_response_time:
  "(let s = run cs (constructor c t :: 'v LRUCache); w = latest 100 (samples cs []);
        mean = real_of_int (sum_list w) / real (length w);
        avg = averageResponseTime (getStats tie_up s)
    in responseTimes s = w \<and> length w \<le> 100 \<and>
       (if w = [] then avg = 0
        else (\<exists>n::int. avg = real_of_int n / 100 \<and> \<bar>real_of_int n - mean * 100\<bar> \<le> 1 / 2) \<and>
             \<bar>avg - mean\<bar> \<le> 1 / 200 \<and>
             (frac (mean * 100) \<noteq> 1 / 2 \<longrightarrow>
                avg = real_of_int (round (mean * 100)) / 100)) \<and>
       responseTimes (set_kv k v now s) = w \<and>
       responseTimes (snd (get k t0 t1 t2 s)) = latest 100 (w @ [t2 - t0]))"
proof -
  let ?s = "run cs (constructor c t :: 'v LRUCache)"
  have 0: "length (responseTimes (constructor c t :: 'v LRUCache)) \<le> 100"
    by (simp add: constructor_def)
  have w: "responseTimes ?s = latest 100 (samples cs [])"
    using run_responseTimes[OF 0, of cs] by (simp add: constructor_def)
  then have l: "length (responseTimes ?s) \<le> 100" by (simp add: length_latest)
  have e: "averageResponseTime (getStats tie_up ?s) = 0" if "responseTimes ?s = []"
    using that by (simp add: getStats_def calculateAverageResponseTime_def)
  show ?thesis
    unfolding Let_def w[symmetric]
    using l e average_rounded[of ?s tie_up]
    by (simp add: set_kv_frame get_responseTimes del: run.simps)
qed

theorem average_response_time_witness:
  "(let s = run [Get ''x'' 0 0 1, Set ''x'' (7::int) 1, Get ''x'' 2 2 4, Get ''y'' 5 5 7]
              (constructor 3 60)
    in responseTimes s = [1, 2, 2] \<and>
       frac ((real_of_int (sum_list [1, 2, 2]) / real (length [1, 2, 2::int])) * 100) \<noteq> 1 / 2 \<and>
       averageResponseTime (getStats False s) = 167 / 100)"
proof -
  let ?cs = "[Get ''x'' 0 0 1, Set ''x'' (7::int) 1, Get ''x'' 2 2 4, Get ''y'' 5 5 7]"
  have w: "latest 100 (samples ?cs []) = [1, 2, 2]" by (simp add: latest_def)
  have f: "frac ((real_of_int (sum_list [1, 2, 2]) / real (length [1, 2, 2::int])) * 100) \<noteq> 1 / 2"
    by (simp add: frac_def)
  have r: "round ((real_of_int (sum_list [1, 2, 2]) / real (length [1, 2, 2::int])) * 100) = 167"
    by (simp add: round_def)
  from average_response_time[where cs = ?cs and c = 3 and t = 60 and tie_up = False
      and k = "''x''" and v = 7 and now = 0 and ?t0.0 = 0 and ?t1.0 = 0 and ?t2.0 = 0]
  show ?thesis
    unfolding Let_def w using f r by (simp del: run.simps)
qed

text \<open>
  C9. In a state reached by any sequence of calls on a new cache, \<open>delete\<close> of a key that
  is in the index returns true, takes one entry off the index, the reported size and the
  recency list (that key's entry, the others staying in order), and \<open>delete\<close> of a key that
  is not in the index returns false and leaves the state as it is. A second \<open>delete\<close> of
  the same key returns false.
\<close>

theorem delete_result:
  fixes s :: "'v LRUCache"
  assumes "s = run cs (constructor c t)"
  shows "(k \<in> set (index_keys s) \<longrightarrow>
            fst (delete k s) \<and>
            int (length (cache (snd (delete k s)))) = int (length (cache s)) - 1 \<and>
            size_stat (getStats tie_up (snd (delete k s))) = size_stat (getStats tie_up s) - 1 \<and>
            index_keys (snd (delete k s)) = filter (\<lambda>k'. k' \<noteq> k) (index_keys s) \<and>
            k \<notin> set (index_keys (snd (delete k s))) \<and>
            (\<exists>es. recency_list s = Some es \<and> k \<in> fst ` set es \<and>
                  recency_list (snd (delete k s)) = Some (lru_remove k es))) \<and>
         (k \<notin> set (index_keys s) \<longrightarrow> delete k s = (False, s)) \<and>
         \<not> fst (delete k (snd (delete k s)))"
proof -
  let ?es = "lru_run c (t * 1000) cs ([] :: 'v entry list)"
  have r: "refines s ?es" unfolding assms by (rule reachable_refines)
  note O = refines_obs[OF r]
  note O' = refines_obs[OF delete_refines[OF r, of k]]
  have present: "fst (delete k s)"
    "int (length (cache (snd (delete k s)))) = int (length (cache s)) - 1"
    "size_stat (getStats tie_up (snd (delete k s))) = size_stat (getStats tie_up s) - 1"
    "\<exists>es. recency_list s = Some es \<and> k \<in> fst ` set es \<and>
          recency_list (snd (delete k s)) = Some (lru_remove k es)"
    if k: "k \<in> set (index_keys s)"
  proof -
    from k O(3) have ke: "k \<in> fst ` set ?es" by simp
    from k show "fst (delete k s)"
      using delete_inv(2) r by (auto simp: refines_def index_keys_def)
    from length_lru_remove[OF O(4) ke]
    show "int (length (cache (snd (delete k s)))) = int (length (cache s)) - 1"
      by (simp add: O(5) O'(5))
    from length_lru_remove[OF O(4) ke]
    show "size_stat (getStats tie_up (snd (delete k s))) = size_stat (getStats tie_up s) - 1"
      by (simp add: getStats_def O(6) O'(6))
    from ke O(1) O'(1)
    show "\<exists>es. recency_list s = Some es \<and> k \<in> fst ` set es \<and>
          recency_list (snd (delete k s)) = Some (lru_remove k es)"
      by simp
  qed
  have "k \<notin> set (index_keys (snd (delete k s)))" by (simp add: index_keys_delete)
  with present show ?thesis
    by (simp add: delete_absent delete_twice index_keys_delete)
qed

theorem delete_result_witness:
  "(let s = run [Set ''a'' (1::int) 0, Set ''b'' 2 0] (constructor 3 60)
    in ''a'' \<in> set (index_keys s) \<and> fst (delete ''a'' s) \<and>
       recency_list (snd (delete ''a'' s)) = Some [(''b'', 2, 0)] \<and>
       ''z'' \<notin> set (index_keys s) \<and> \<not> fst (delete ''z'' s))"
proof -
  let ?s = "run [Set ''a'' (1::int) 0, Set ''b'' 2 0] (constructor 3 60)"
  have k: "set (index_keys ?s) = {''a'', ''b''}"
    by (subst reachable_keys) (simp add: lru_defs insert_commute)
  have e: "recency_list ?s = Some [(''b'', 2, 0), (''a'', 1, 0)]"
    by (subst reachable_recency) (simp add: lru_defs)
  from delete_result[OF refl, where k = "''a''" and cs = "[Set ''a'' (1::int) 0, Set ''b'' 2 0]"
      and c = 3 and t = 60 and tie_up = True]
    delete_result[OF refl, where k = "''z''" and cs = "[Set ''a'' (1::int) 0, Set ''b'' 2 0]"
      and c = 3 and t = 60 and tie_up = True]
  show ?thesis by (simp add: Let_def k e lru_defs del: run.simps)
qed

text \<open>
  C4. In a state reached by any sequence of calls on a new cache, \<open>get\<close> of a key whose
  entry is older than the TTL (the age is the clock at the expiry test minus the stored
  timestamp, and it is strictly greater than \<open>ttl\<close>) returns \<open>None\<close> (the source's null),
  takes the entry off the index and off the recency list, adds one to the misses and
  nothing to the hits, and appends one duration to the window (which keeps the latest
  100). A key that is not in the index gives the same result and the same counters.
  \<open>get\<close> is a total function: it returns in every case.
\<close>

theorem get_expired:
  fixes s :: "'v LRUCache"
  assumes "s = run cs (constructor c t)" and "recency_list s = Some es"
    and "(k, v, ts) \<in> set es" and "checkTime - ts > ttl s"
  shows "fst (get k startTime checkTime endTime s) = None \<and>
         recency_list (snd (get k startTime checkTime endTime s)) = Some (lru_remove k es) \<and>
         k \<notin> fst ` set (lru_remove k es) \<and>
         k \<notin> set (index_keys (snd (get k startTime checkTime endTime s))) \<and>
         misses (stats (snd (get k startTime checkTime endTime s))) = misses (stats s) + 1 \<and>
         hits (stats (snd (get k startTime checkTime endTime s))) = hits (stats s) \<and>
         responseTimes (snd (get k startTime checkTime endTime s)) =
           latest 100 (responseTimes s @ [endTime - startTime]) \<and>
         (\<forall>k'. k' \<notin> set (index_keys s) \<longrightarrow>
            fst (get k' startTime checkTime endTime s) = None \<and>
            recency_list (snd (get k' startTime checkTime endTime s)) = Some es \<and>
            misses (stats (snd (get k' startTime checkTime endTime s))) = misses (stats s) + 1 \<and>
            hits (stats (snd (get k' startTime checkTime endTime s))) = hits (stats s) \<and>
            responseTimes (snd (get k' startTime checkTime endTime s)) =
              latest 100 (responseTimes s @ [endTime - startTime]))"
proof -
  have r0: "refines s (lru_run c (t * 1000) cs [])" unfolding assms(1) by (rule reachable_refines)
  with assms(2) have r: "refines s es" using refines_obs(1) by fastforce
  note O = refines_obs[OF r]
  have w: "length (responseTimes s) \<le> 100" unfolding assms(1) by (rule reachable_window)
  have look: "lru_lookup k es = Some (k, v, ts)"
    using lookup_in[OF O(4) assms(3)] by simp
  let ?g = "get k startTime checkTime endTime s"
  have res: "fst ?g = None"
    using assms(4) by (simp add: get_refines(2)[OF r] lru_get_result_def look lru_expired_def)
  have "refines (snd ?g) (lru_remove k es)"
    using get_refines(1)[OF r, of k startTime checkTime endTime] assms(4)
    by (simp add: lru_get_def look lru_expired_def)
  note O' = refines_obs[OF this]
  have absent: "fst (get k' startTime checkTime endTime s) = None \<and>
            recency_list (snd (get k' startTime checkTime endTime s)) = Some es \<and>
            misses (stats (snd (get k' startTime checkTime endTime s))) = misses (stats s) + 1 \<and>
            hits (stats (snd (get k' startTime checkTime endTime s))) = hits (stats s) \<and>
            responseTimes (snd (get k' startTime checkTime endTime s)) =
              latest 100 (responseTimes s @ [endTime - startTime])"
    if "k' \<notin> set (index_keys s)" for k'
  proof -
    from that O(3) have l: "lru_lookup k' es = None" by (simp add: lookup_notin)
    let ?g' = "get k' startTime checkTime endTime s"
    have a: "fst ?g' = None" by (simp add: get_refines(2)[OF r] lru_get_result_def l)
    have "refines (snd ?g') es"
      using get_refines(1)[OF r, of k' startTime checkTime endTime] by (simp add: lru_get_def l)
    then have "recency_list (snd ?g') = Some es" by (rule refines_obs(1))
    with a w show ?thesis by (simp add: get_counters get_responseTimes)
  qed
  from res O'(1,3) w absent show ?thesis
    by (simp add: get_counters get_responseTimes keys_lru_remove)
qed

theorem get_expired_witness:
  "(let s = run [Set ''a'' (1::int) 0] (constructor 3 1)
    in recency_list s = Some [(''a'', 1, 0)] \<and> 1001 - 0 > ttl s \<and>
       fst (get ''a'' 1001 1001 1002 s) = None \<and>
       recency_list (snd (get ''a'' 1001 1001 1002 s)) = Some [] \<and>
       misses (stats (snd (get ''a'' 1001 1001 1002 s))) = misses (stats s) + 1)"
proof -
  let ?s = "run [Set ''a'' (1::int) 0] (constructor 3 1)"
  have e: "recency_list ?s = Some [(''a'', 1, 0)]"
    by (subst reachable_recency) (simp add: lru_defs)
  have m: "(''a'', 1, 0) \<in> set [(''a'', 1::int, 0::int)]" by simp
  have t: "1001 - 0 > ttl ?s" by (simp add: run_config constructor_def del: run.simps)
  from get_expired[OF refl e m t, of 1001 1002] e t show ?thesis
    by (simp add: Let_def lru_defs del: run.simps)
qed





text \<open>
  C1. For a capacity \<open>c \<ge> 1\<close> and any sequence of calls on a new cache (calls of \<open>set\<close>, and
  of every other operation, the timer's sweep among them), the number of keys in the
  index is at most \<open>c\<close> and is the size that \<open>getStats\<close> reports, and the recency list is
  the order of use \<open>lru_run\<close> of the calls, the most recently used entry first. In such a
  state with \<open>c\<close> keys, a \<open>set\<close> of a key that is not in the index evicts one entry, the
  last of that order of use (the least recently used, which is the tail of the list):
  the new entry is put before the others, which keep their order, and the index again
  has \<open>c\<close> keys.
\<close>

theorem capacity_invariant:
  fixes s :: "'v LRUCache"
  assumes "1 \<le> c" and "s = run cs (constructor c t)"
  shows "int (length (cache s)) \<le> c \<and>
         size_stat (getStats tie_up s) = int (length (cache s)) \<and>
         recency_list s = Some (lru_run c (t * 1000) cs []) \<and>
         (\<forall>k v now. k \<notin> set (index_keys s) \<and> int (length (cache s)) = c \<longrightarrow>
            (\<exists>es e. lru_run c (t * 1000) cs [] = es @ [e] \<and>
                    recency_list s = Some (es @ [e]) \<and> fst e \<noteq> k \<and>
                    tail s = map_of (cache s) (fst e) \<and> tail s \<noteq> None \<and>
                    recency_list (set_kv k v now s) = Some ((k, v, now) # es) \<and>
                    recency_list (set_kv k v now s) =
                      Some (lru_run c (t * 1000) (cs @ [Set k v now]) []) \<and>
                    set (index_keys (set_kv k v now s)) = insert k (set (index_keys s) - {fst e}) \<and>
                    int (length (cache (set_kv k v now s))) = c))"
proof -
  let ?es = "lru_run c (t * 1000) cs ([] :: 'v entry list)"
  have r: "refines s ?es" unfolding assms(2) by (rule reachable_refines)
  note O = refines_obs[OF r]
  have cap: "capacity s = c" unfolding assms(2) by (simp add: run_config constructor_def)
  have le: "int (length ?es) \<le> c" using assms(1) by (intro lru_run_length) simp_all
  have evict: "\<exists>es e. ?es = es @ [e] \<and> recency_list s = Some (es @ [e]) \<and> fst e \<noteq> k \<and>
                    tail s = map_of (cache s) (fst e) \<and> tail s \<noteq> None \<and>
                    recency_list (set_kv k v now s) = Some ((k, v, now) # es) \<and>
                    recency_list (set_kv k v now s) =
                      Some (lru_run c (t * 1000) (cs @ [Set k v now]) []) \<and>
                    set (index_keys (set_kv k v now s)) = insert k (set (index_keys s) - {fst e}) \<and>
                    int (length (cache (set_kv k v now s))) = c"
    if k: "k \<notin> set (index_keys s)" and full: "int (length (cache s)) = c" for k v now
  proof -
    from full assms(1) O(5) have "?es \<noteq> []" by auto
    then obtain es e where es: "?es = es @ [e]" by (cases ?es rule: rev_cases) auto
    from k O(3) have kn: "k \<notin> fst ` set ?es" by simp
    then have l: "lru_lookup k ?es = None" by (rule lookup_notin)
    from full O(5) have "int (length ?es) + 1 > c" by simp
    with l es have set': "lru_set c k v now ?es = (k, v, now) # es"
      by (simp add: lru_set_def)
    have "refines (set_kv k v now s) ((k, v, now) # es)"
      using set_kv_refines[OF r, of k v now] by (simp add: cap set')
    note O' = refines_obs[OF this]
    have app: "lru_run c (t * 1000) (cs @ [Set k v now]) ([] :: 'v entry list) = (k, v, now) # es"
      by (simp add: lru_run_append set')
    from r obtain as where inv: "cache_inv s as" and m: "map (entry (heap s)) as = es @ [e]"
      by (auto simp: refines_def es)
    note I = cache_invD[OF inv]
    from m have ne: "as \<noteq> []" by auto
    from m ne have le': "entry (heap s) (last as) = e" by (simp add: last_map[symmetric])
    from I(1) have "tail s = first_opt (rev as)" by (auto simp: dll_def dest: chain_first')
    with ne have tl: "tail s = Some (last as)" by (simp add: first_opt_rev)
    from ne have "(key (heap s ! last as), last as) \<in> set (cache s)" by (simp add: I(5))
    with I(4) have "map_of (cache s) (key (heap s ! last as)) = Some (last as)" by simp
    with le' tl have t1: "tail s = map_of (cache s) (fst e)" by auto
    from O(4) es have "fst e \<notin> fst ` set es" by auto
    then have "fst ` set ?es - {fst e} = fst ` set es" by (auto simp: es)
    moreover from kn es have "fst e \<noteq> k" by auto
    moreover from full O(5) es have "int (length ((k, v, now) # es)) = c" by simp
    ultimately show ?thesis using O(1,3) O'(1,3,5) es app t1 tl by auto
  qed
  from le evict show ?thesis by (simp add: O(1,5,6) getStats_def)
qed

theorem capacity_invariant_witness:
  "(let s = run [Set ''a'' (1::int) 0, Set ''b'' 2 1, Set ''a'' 3 2] (constructor 2 60)
    in (1::int) \<le> 2 \<and> int (length (cache s)) \<le> 2 \<and>
       ''c'' \<notin> set (index_keys s) \<and> int (length (cache s)) = 2 \<and>
       recency_list s = Some [(''a'', 3, 2), (''b'', 2, 1)] \<and>
       recency_list (set_kv ''c'' 4 3 s) = Some [(''c'', 4, 3), (''a'', 3, 2)])"
proof -
  let ?cs = "[Set ''a'' (1::int) 0, Set ''b'' 2 1, Set ''a'' 3 2]"
  let ?s = "run ?cs (constructor 2 60)"
  have h: "(1::int) \<le> 2" by simp
  have k: "set (index_keys ?s) = {''a'', ''b''}"
    by (subst reachable_keys) (simp add: lru_defs insert_commute)
  have l: "lru_run 2 (60 * 1000) ?cs [] = [(''a'', 3, 2), (''b'', 2, 1)]"
    by (simp add: lru_defs)
  note T = capacity_invariant[OF h refl, where cs = ?cs and t = 60 and tie_up = True]
  from T have len: "int (length (cache ?s)) \<le> 2" by blast
  from T l have e: "recency_list ?s = Some [(''a'', 3, 2), (''b'', 2, 1)]" by simp
  have "length (cache ?s) = 2"
    using refines_obs(5)[OF reachable_refines, of ?cs 2 60] by (simp add: lru_defs)
  then have full: "int (length (cache ?s)) = 2" by simp
  have kc: "''c'' \<notin> set (index_keys ?s)" by (simp add: k del: run.simps)
  from T kc full obtain es e' where
    "recency_list ?s = Some (es @ [e'])"
    "recency_list (set_kv ''c'' 4 3 ?s) = Some ((''c'', 4, 3) # es)"
    by blast
  with e have "recency_list (set_kv ''c'' 4 3 ?s) = Some [(''c'', 4, 3), (''a'', 3, 2)]"
    by (cases es rule: rev_cases) (auto simp del: run.simps)
  with h len kc full e show ?thesis by (simp add: Let_def del: run.simps)
qed

text \<open>
  C2. After any sequence of calls on a new cache of capacity \<open>c \<ge> 1\<close> (calls of \<open>get\<close>,
  \<open>set\<close>, \<open>delete\<close>, \<open>clear\<close> and \<open>destroy\<close>, and the timer's sweep): following the \<open>next\<close>
  links from the head reaches the null pointer and meets some nodes \<open>as\<close>, each once;
  following the \<open>prev\<close> links from the tail meets the same nodes in the opposite order;
  the index has one entry, under the node's own key, for each node of \<open>as\<close> and no other
  entry, and its keys are distinct. The list, read from the head, is the most recently
  used order \<open>lru_run\<close> of the calls (a \<open>set\<close> or a successful \<open>get\<close> puts its key first; a
  removal keeps the order of the rest), so the head is the most recently used entry; and
  the entry that \<open>removeTail\<close>, the eviction, removes is the last one of that order.
\<close>

theorem index_list_bijection:
  fixes s :: "'v LRUCache"
  assumes "1 \<le> c" and "s = run cs (constructor c t)"
  shows "(\<exists>as. list_forward s = Some as \<and> list_backward s = Some (rev as) \<and>
               distinct as \<and> distinct (index_keys s) \<and>
               set (cache s) = (\<lambda>a. (key (heap s ! a), a)) ` set as \<and>
               length (cache s) = length as \<and>
               head s = first_opt as \<and> tail s = first_opt (rev as)) \<and>
         recency_list s = Some (lru_run c (t * 1000) cs []) \<and>
         recency_list (removeTail s) = Some (butlast (lru_run c (t * 1000) cs [])) \<and>
         set (index_keys (removeTail s)) = fst ` set (butlast (lru_run c (t * 1000) cs []))"
proof -
  let ?es = "lru_run c (t * 1000) cs ([] :: 'v entry list)"
  have r: "refines s ?es" unfolding assms(2) by (rule reachable_refines)
  note O = refines_obs[OF r]
  note O' = refines_obs[OF removeTail_refines[OF r]]
  from reachable_structure[OF assms(2)]
  have "\<exists>as. list_forward s = Some as \<and> list_backward s = Some (rev as) \<and>
               distinct as \<and> distinct (index_keys s) \<and>
               set (cache s) = (\<lambda>a. (key (heap s ! a), a)) ` set as \<and>
               length (cache s) = length as \<and>
               head s = first_opt as \<and> tail s = first_opt (rev as)"
    by blast
  with O(1) O'(1,3) show ?thesis by simp
qed

theorem index_list_bijection_witness:
  "(let s = run [Set ''a'' (1::int) 0, Set ''b'' 2 1, Get ''a'' 2 2 2] (constructor 2 60)
    in (1::int) \<le> 2 \<and>
       recency_list s = Some [(''a'', 1, 0), (''b'', 2, 1)] \<and>
       recency_list (removeTail s) = Some [(''a'', 1, 0)])"
proof -
  let ?cs = "[Set ''a'' (1::int) 0, Set ''b'' 2 1, Get ''a'' 2 2 2]"
  have h: "(1::int) \<le> 2" by simp
  from index_list_bijection[OF h refl, where cs = ?cs and t = 60] h
  show ?thesis by (simp add: Let_def lru_defs del: run.simps)
qed

end
